theory Spec2Isabelle
  imports Complex_Main "HOL-Library.Word"
begin

unbundle bit_operations_syntax

section \<open>Failures\<close>

text \<open>
  The ways in which the C++ code stops without a result: a method called through a null
  pointer, a failed \<^verbatim>\<open>assert\<close>, and the parameter check of \<^verbatim>\<open>Generate\<close>.
\<close>

datatype failure = NullDereference | AssertionFailed | InvalidParameters

section \<open>Hits and their comparison\<close>

text \<open>
  Modelled from the spec: the class \<^verbatim>\<open>Hit\<close> (Hit.h is not among the sources). The spec
  gives a hit a plane index, a position along the measurement axis and a resolution;
  the resolution, which no function below reads, is left out. Positions are
  \<^verbatim>\<open>Double_t\<close> in the code and real numbers here.
\<close>

record Hit =
  plane_num :: nat
  pos :: real

text \<open>
  Modelled from the spec: \<^verbatim>\<open>Hit::Compare\<close> (Hit.h is not among the sources), a
  three-valued comparison meaning "position less than" (-1), "within maxdist" (0) and
  "greater than" (+1).
\<close>

definition Hit_Compare :: "Hit \<Rightarrow> Hit \<Rightarrow> real \<Rightarrow> int" where
  "Hit_Compare a b maxdist =
     (if \<bar>pos a - pos b\<bar> \<le> maxdist then 0 else if pos a < pos b then - 1 else 1)"

section \<open>HitPairIter (Hit.cxx)\<close>

text \<open>
  A \<^verbatim>\<open>TSeqCollection\<close> of hit pointers is a list; a hit pointer is a value of the type
  \<open>'h\<close>, the null pointer is \<open>None\<close>. A ROOT \<^verbatim>\<open>TIterator\<close> over the collection is a
  cursor: the index of the element that its next call of \<^verbatim>\<open>Next()\<close> returns. At the end
  of the collection \<^verbatim>\<open>Next()\<close> returns null and the cursor stays. Assigning one iterator
  to another copies the cursor. A null collection has a null iterator, which the code
  never advances; it behaves as the empty list does here.
\<close>

definition TIterator_Next :: "'h list \<Rightarrow> nat \<Rightarrow> 'h option \<times> nat" where
  "TIterator_Next coll i = (if i < length coll then (Some (coll ! i), Suc i) else (None, i))"

record 'h HitPairIter =
  fCollA :: "'h list"
  fCollB :: "'h list"
  fIterA :: nat
  fIterB :: nat
  fSaveIter :: nat
  fSaveHit :: "'h option"
  fMaxDist :: real
  fStarted :: bool
  fScanning :: bool
  fCurrent :: "'h option \<times> 'h option"
  fNext :: "'h option \<times> 'h option"

text \<open>
  The loop at the end of a scan (Hit.cxx, lines 233-234):
  \<^verbatim>\<open>while( hitB != nextB && hitB->Compare(hitA,fMaxDist) < 0 ) hitB = fIterB->Next();\<close>
  It returns the hit it stops at and the cursor of \<^verbatim>\<open>fIterB\<close>. Calling \<^verbatim>\<open>Compare\<close> on a
  null \<^verbatim>\<open>hitB\<close> is the failure \<open>NullDereference\<close>.
\<close>

function scan_forward ::
  "('h \<Rightarrow> 'h \<Rightarrow> real \<Rightarrow> int) \<Rightarrow> 'h list \<Rightarrow> real \<Rightarrow> 'h \<Rightarrow> 'h option \<Rightarrow> 'h option \<Rightarrow> nat
     \<Rightarrow> failure + ('h option \<times> nat)"
where
  "scan_forward cmp coll maxdist hitA nextB hitB i =
     (if hitB = nextB then Inr (hitB, i)
      else case hitB of
        None \<Rightarrow> Inl NullDereference
      | Some b \<Rightarrow>
          if cmp b hitA maxdist < 0
          then scan_forward cmp coll maxdist hitA nextB
                 (fst (TIterator_Next coll i)) (snd (TIterator_Next coll i))
          else Inr (hitB, i))"
  by pat_completeness auto
termination
  by (relation "measure (\<lambda>(cmp, coll, maxdist, hitA, nextB, hitB, i).
        2 * (length coll - i) + (if hitB = None then 0 else 1))")
     (auto simp: TIterator_Next_def)

declare scan_forward.simps [simp del]

text \<open>
  \<^verbatim>\<open>fIterA->Next()\<close> and \<^verbatim>\<open>fIterB->Next()\<close>: the hit the call returns, and the iterator
  object after the call.
\<close>

definition nextA :: "'h HitPairIter \<Rightarrow> 'h option" where
  "nextA it = fst (TIterator_Next (fCollA it) (fIterA it))"

definition stepA :: "'h HitPairIter \<Rightarrow> 'h HitPairIter" where
  "stepA it = it\<lparr> fIterA := snd (TIterator_Next (fCollA it) (fIterA it)) \<rparr>"

definition nextB :: "'h HitPairIter \<Rightarrow> 'h option" where
  "nextB it = fst (TIterator_Next (fCollB it) (fIterB it))"

definition stepB :: "'h HitPairIter \<Rightarrow> 'h HitPairIter" where
  "stepB it = it\<lparr> fIterB := snd (TIterator_Next (fCollB it) (fIterB it)) \<rparr>"

text \<open>
  \<^verbatim>\<open>HitPairIter::Next\<close> (Hit.cxx, lines 187-274), block by block. \<open>cmp\<close> is
  \<^verbatim>\<open>Hit::Compare\<close>.

  Lines 194-198: the first call fetches the first hit of each collection.
\<close>

definition first_call :: "'h HitPairIter \<Rightarrow> 'h HitPairIter" where
  "first_call it =
     (if \<not> fStarted it
      then (stepB (stepA it))\<lparr> fNext := (nextA it, nextB it), fStarted := True \<rparr>
      else it)"

text \<open>
  Lines 219-240: the end of a scan of B with \<^verbatim>\<open>hitA\<close> fixed. \<open>nb\<close> is \<^verbatim>\<open>nextB\<close>, the hit
  of B that ended the scan; \<^verbatim>\<open>fIterB\<close> has already moved past it.
\<close>

definition end_of_scan ::
  "('h \<Rightarrow> 'h \<Rightarrow> real \<Rightarrow> int) \<Rightarrow> 'h option \<Rightarrow> 'h HitPairIter \<Rightarrow> failure + 'h HitPairIter"
where
  "end_of_scan cmp nb it =
     (let itS = it\<lparr> fScanning := False, fIterB := fSaveIter it \<rparr> in
      case nextA itS of
        Some a' \<Rightarrow>
          (case scan_forward cmp (fCollB itS) (fMaxDist itS) a' nb (fSaveHit itS) (fIterB itS) of
             Inl e \<Rightarrow> Inl e
           | Inr (hb, ib) \<Rightarrow> Inr ((stepA itS)\<lparr> fIterB := ib, fNext := (Some a', hb) \<rparr>))
      | None \<Rightarrow> Inr ((stepA itS)\<lparr> fNext := (None, nb) \<rparr>))"

text \<open>Lines 214-265: the \<^verbatim>\<open>default\<close> branch of the switch, "found a pair".\<close>

definition pair_found ::
  "('h \<Rightarrow> 'h \<Rightarrow> real \<Rightarrow> int) \<Rightarrow> 'h \<Rightarrow> 'h \<Rightarrow> 'h HitPairIter \<Rightarrow> failure + 'h HitPairIter"
where
  "pair_found cmp hitA hitB it =
     (if (case nextB it of None \<Rightarrow> True | Some b' \<Rightarrow> cmp hitA b' (fMaxDist it) < 0)
      then
        if fScanning it then end_of_scan cmp (nextB it) (stepB it)
        else Inr ((stepA (stepB it))\<lparr> fNext := (nextA it, nextB it) \<rparr>)
      else
        (if \<not> fScanning it
         then Inr ((stepB it)\<lparr> fScanning := True, fSaveIter := fIterB (stepB it),
                               fSaveHit := Some hitB, fNext := (fst (fNext it), nextB it) \<rparr>)
         else Inr ((stepB it)\<lparr> fNext := (fst (fNext it), nextB it) \<rparr>)))"

text \<open>
  The whole method: the first-call block, \<^verbatim>\<open>fCurrent = fNext\<close>, and the switch on the
  comparison of the two hits.
\<close>

definition HitPairIter_Next ::
  "('h \<Rightarrow> 'h \<Rightarrow> real \<Rightarrow> int) \<Rightarrow> 'h HitPairIter \<Rightarrow> failure + 'h HitPairIter"
where
  "HitPairIter_Next cmp it0 =
    (let it = (first_call it0)\<lparr> fCurrent := fNext (first_call it0) \<rparr> in
     case fCurrent it of
       (Some hitA, Some hitB) \<Rightarrow>
         (if cmp hitA hitB (fMaxDist it) = - 1 then
            Inr ((stepA it)\<lparr> fNext := (nextA it, snd (fNext it)),
                              fCurrent := (Some hitA, None) \<rparr>)
          else if cmp hitA hitB (fMaxDist it) = 1 then
            Inr ((stepB it)\<lparr> fNext := (fst (fNext it), nextB it),
                              fCurrent := (None, Some hitB) \<rparr>)
          else pair_found cmp hitA hitB it)
     | (Some hitA, None) \<Rightarrow> Inr ((stepA it)\<lparr> fNext := (nextA it, snd (fNext it)) \<rparr>)
     | (None, Some hitB) \<Rightarrow> Inr ((stepB it)\<lparr> fNext := (fst (fNext it), nextB it) \<rparr>)
     | (None, None) \<Rightarrow> Inr it)"

text \<open>
  The constructor (Hit.cxx, lines 89-107) sets the members and calls \<^verbatim>\<open>Next()\<close> once,
  which computes the first pair.
\<close>

definition HitPairIter_members :: "'h list \<Rightarrow> 'h list \<Rightarrow> real \<Rightarrow> 'h HitPairIter" where
  "HitPairIter_members collA collB maxdist =
     \<lparr> fCollA = collA, fCollB = collB, fIterA = 0, fIterB = 0, fSaveIter = 0,
       fSaveHit = None, fMaxDist = maxdist, fStarted = False, fScanning = False,
       fCurrent = (None, None), fNext = (None, None) \<rparr>"

definition HitPairIter_ctor ::
  "('h \<Rightarrow> 'h \<Rightarrow> real \<Rightarrow> int) \<Rightarrow> 'h list \<Rightarrow> 'h list \<Rightarrow> real \<Rightarrow> failure + 'h HitPairIter"
where
  "HitPairIter_ctor cmp collA collB maxdist =
     HitPairIter_Next cmp (HitPairIter_members collA collB maxdist)"

text \<open>\<open>n\<close> successive calls of \<^verbatim>\<open>Next()\<close>.\<close>

fun Next_times ::
  "('h \<Rightarrow> 'h \<Rightarrow> real \<Rightarrow> int) \<Rightarrow> nat \<Rightarrow> 'h HitPairIter \<Rightarrow> failure + 'h HitPairIter"
where
  "Next_times cmp 0 it = Inr it"
| "Next_times cmp (Suc n) it =
     (case HitPairIter_Next cmp it of Inl e \<Rightarrow> Inl e | Inr it' \<Rightarrow> Next_times cmp n it')"

text \<open>
  The pairs that \<open>n\<close> successive calls of \<^verbatim>\<open>Next()\<close> publish in \<^verbatim>\<open>fCurrent\<close>, in order
  (the list ends early at a failure).
\<close>

fun emissions ::
  "('h \<Rightarrow> 'h \<Rightarrow> real \<Rightarrow> int) \<Rightarrow> nat \<Rightarrow> 'h HitPairIter \<Rightarrow> ('h option \<times> 'h option) list"
where
  "emissions cmp 0 it = []"
| "emissions cmp (Suc n) it =
     (case HitPairIter_Next cmp it of
        Inl e \<Rightarrow> []
      | Inr it' \<Rightarrow> fCurrent it' # emissions cmp n it')"

text \<open>
  The copy constructor (Hit.cxx, lines 110-128). Every member is initialised from
  \<^verbatim>\<open>rhs\<close> and the three iterators are fresh ones that receive the cursors of
  \<^verbatim>\<open>rhs\<close>, with one exception: the initialiser \<^verbatim>\<open>fMaxDist(fMaxDist)\<close> reads the new
  object's own member, which holds no value yet. \<open>indeterminate\<close> is the value that
  read yields.
\<close>

definition HitPairIter_copy :: "real \<Rightarrow> 'h HitPairIter \<Rightarrow> 'h HitPairIter" where
  "HitPairIter_copy indeterminate rhs =
     \<lparr> fCollA = fCollA rhs, fCollB = fCollB rhs, fIterA = fIterA rhs, fIterB = fIterB rhs,
       fSaveIter = fSaveIter rhs, fSaveHit = fSaveHit rhs, fMaxDist = indeterminate,
       fStarted = fStarted rhs, fScanning = fScanning rhs, fCurrent = fCurrent rhs,
       fNext = fNext rhs \<rparr>"

section \<open>HitSet (Hit.cxx)\<close>

text \<open>
  Modelled from the spec: the class \<^verbatim>\<open>HitSet\<close> (Hit.h is not among the sources), a sorted
  set of hit pointers and a cached plane pattern. The set is the list of its elements in
  iteration order; the pattern is a \<^verbatim>\<open>UInt_t\<close>. The ordering of the set
  (\<^verbatim>\<open>Hset_t::key_compare\<close>) and \<^verbatim>\<open>Hit::GetPlaneNum\<close> are parameters \<open>key_comp\<close> and \<open>plane\<close> of
  the functions below.
\<close>

record 'h HitSet =
  hits :: "'h list"
  plane_pattern :: "32 word"

text \<open>
  The mask \<^verbatim>\<open>1U << n\<close> of a plane number. The shift is one of a 32-bit \<^verbatim>\<open>unsigned\<close>, and
  C++ defines it for \<open>n < 32\<close> only. From 32 on the compiled code takes the shift count
  modulo 32 (the shift instruction of x86 reads the low five bits of the count), which is
  what is written out here; the properties below that need plane numbers below 32 say so.
\<close>

definition plane_mask :: "nat \<Rightarrow> 32 word" where
  "plane_mask n = push_bit (n mod 32) 1"

text \<open>\<^verbatim>\<open>HitSet::GetMatchValue\<close> (Hit.cxx, lines 277-286).\<close>

definition GetMatchValue :: "('h \<Rightarrow> nat) \<Rightarrow> 'h list \<Rightarrow> 32 word" where
  "GetMatchValue plane hs = fold (\<lambda>h curpat. curpat OR plane_mask (plane h)) hs 0"

text \<open>
  The loop of \<^verbatim>\<open>HitSet::IsSimilarTo\<close> (Hit.cxx, lines 312-322): \<open>hs\<close> is what is left of
  this set from \<^verbatim>\<open>ihits\<close> on, \<open>ts\<close> what is left of \<^verbatim>\<open>tryset\<close> from \<^verbatim>\<open>itry\<close> on, and
  \<open>pat\<close> is \<^verbatim>\<open>intersection_pattern\<close>.
\<close>

fun intersection_pattern ::
  "('h \<Rightarrow> 'h \<Rightarrow> bool) \<Rightarrow> ('h \<Rightarrow> nat) \<Rightarrow> 'h list \<Rightarrow> 'h list \<Rightarrow> 32 word \<Rightarrow> 32 word"
where
  "intersection_pattern key_comp plane [] ts pat = pat"
| "intersection_pattern key_comp plane (h # hs) [] pat = pat"
| "intersection_pattern key_comp plane (h # hs) (t # ts) pat =
     (if key_comp t h then intersection_pattern key_comp plane (h # hs) ts pat
      else if key_comp h t then intersection_pattern key_comp plane hs (t # ts) pat
      else intersection_pattern key_comp plane hs ts (pat OR plane_mask (plane t)))"

text \<open>
  \<^verbatim>\<open>HitSet::IsSimilarTo\<close> (Hit.cxx, lines 289-324), with its
  \<^verbatim>\<open>assert( tryset.plane_pattern )\<close>.
\<close>

definition IsSimilarTo ::
  "('h \<Rightarrow> 'h \<Rightarrow> bool) \<Rightarrow> ('h \<Rightarrow> nat) \<Rightarrow> 'h HitSet \<Rightarrow> 'h HitSet \<Rightarrow> failure + bool"
where
  "IsSimilarTo key_comp plane this tryset =
     (if plane_pattern tryset = 0 then Inl AssertionFailed
      else Inr (plane_pattern tryset
                 = intersection_pattern key_comp plane (hits this) (hits tryset) 0))"

text \<open>
  The spec's words for the same test: "walking both sorted sets in merge order, the
  plane-pattern of the intersection". The intersection found in merge order is the list
  of the hits of \<^verbatim>\<open>tryset\<close> at which the walk finds neither hit before the other.
\<close>

fun merge_order_intersection :: "('h \<Rightarrow> 'h \<Rightarrow> bool) \<Rightarrow> 'h list \<Rightarrow> 'h list \<Rightarrow> 'h list" where
  "merge_order_intersection key_comp [] ts = []"
| "merge_order_intersection key_comp (h # hs) [] = []"
| "merge_order_intersection key_comp (h # hs) (t # ts) =
     (if key_comp t h then merge_order_intersection key_comp (h # hs) ts
      else if key_comp h t then merge_order_intersection key_comp hs (t # ts)
      else t # merge_order_intersection key_comp hs ts)"

section \<open>Patterns and links\<close>

text \<open>
  Modelled from the spec: the classes \<^verbatim>\<open>Pattern\<close> and \<^verbatim>\<open>Link\<close> (Pattern.h is not among
  the sources). A pattern holds its bins (\<^verbatim>\<open>fBits\<close>), the list of its child links
  (\<^verbatim>\<open>fChild\<close>, the head of the list first) and its minimum depth (\<^verbatim>\<open>fMinDepth\<close>). A link
  is the pair of the pattern it points to and its type; the next-sibling pointer is the
  rest of the list. Patterns live in the free store, a list, and a pointer to a pattern
  is its index there. Bins are mathematical integers here; the spec describes them as
  non-negative integers and \<^verbatim>\<open>int\<close> arithmetic on them is taken not to overflow.
\<close>

record Pattern =
  fBits :: "int list"
  fChild :: "(nat \<times> int) list"
  fMinDepth :: nat

text \<open>
  Modelled from the spec: \<^verbatim>\<open>Pattern::GetWidth\<close>. The spec describes the width as the
  signed span of the bins, whose sign flags a pattern that has to be mirrored. It is
  taken as the last bin minus the first: that is the span, with a negative sign for a
  descending pattern, of every candidate that passes the width test of
  \<^verbatim>\<open>ChildIter::operator++\<close> (the test rejects any candidate whose span is larger). A
  pattern without bins does not occur (\<^verbatim>\<open>Generate\<close> wants two planes at least).
\<close>

definition GetWidth :: "int list \<Rightarrow> int" where
  "GetWidth bits = (if bits = [] then 0 else last bits - hd bits)"

section \<open>ChildIter (PatternGenerator.h, PatternGenerator.cxx)\<close>

text \<open>
  The iterator holds copies of the parent and of the current child; only their bins
  matter. The member \<^verbatim>\<open>fChild\<close> of the C++ class is \<open>fChildPat\<close> here, since the name
  \<open>fChild\<close> is taken by the record of patterns.
\<close>

record ChildIter =
  fParent :: "int list"
  fChildPat :: "int list"
  fCount :: int
  fType :: int

text \<open>
  The \<^verbatim>\<open>for\<close> loop of \<^verbatim>\<open>operator++\<close> (PatternGenerator.cxx, lines 55-62), which runs
  \<^verbatim>\<open>ibit\<close> from \<^verbatim>\<open>nbits - 1\<close> down to 0. The state is the child's bins, \<^verbatim>\<open>minbit\<close> and
  \<^verbatim>\<open>maxbit\<close>.
\<close>

primrec assign_bits ::
  "int list \<Rightarrow> int \<Rightarrow> nat \<Rightarrow> int list \<times> int \<times> int \<Rightarrow> int list \<times> int \<times> int"
where
  "assign_bits parent count 0 s = s"
| "assign_bits parent count (Suc ibit) s =
     (case s of (child, minbit, maxbit) \<Rightarrow>
        (let b = 2 * parent ! ibit + (if bit count ibit then 1 else 0)
         in assign_bits parent count ibit (child[ibit := b], min b minbit, max b maxbit)))"

text \<open>
  The \<^verbatim>\<open>while( fCount-- )\<close> loop of \<^verbatim>\<open>operator++\<close> (lines 51-80). \<^verbatim>\<open>operator++\<close> enters
  it with \<^verbatim>\<open>fCount > 0\<close> only, so the decrement reaches 0 exactly and the loop then ends
  with \<^verbatim>\<open>fCount = -1\<close>.
\<close>

function ChildIter_loop :: "ChildIter \<Rightarrow> ChildIter" where
  "ChildIter_loop it =
     (if fCount it \<le> 0 then it\<lparr> fCount := fCount it - 1 \<rparr>
      else
        (case assign_bits (fParent it) (fCount it - 1) (length (fChildPat it))
                (fChildPat it, 1, 0) of
           (child, minbit, maxbit) \<Rightarrow>
             if maxbit - minbit > \<bar>GetWidth child\<bar>
             then ChildIter_loop (it\<lparr> fCount := fCount it - 1, fChildPat := child \<rparr>)
             else
               (let width = GetWidth child;
                    type1 = (if minbit = 0 then 0 else 1);
                    child1 = (if minbit = 0 then child else map (\<lambda>b. b - 1) child)
                in if width < 0
                   then it\<lparr> fCount := fCount it - 1,
                            fChildPat := map (\<lambda>b. - width - b) child1,
                            fType := type1 + 2 \<rparr>
                   else it\<lparr> fCount := fCount it - 1, fChildPat := child1,
                            fType := type1 \<rparr>)))"
  by pat_completeness auto
termination
  by (relation "measure (\<lambda>it. nat (fCount it))") auto

declare ChildIter_loop.simps [simp del]

text \<open>\<^verbatim>\<open>ChildIter::operator++\<close> (lines 33-84).\<close>

definition ChildIter_inc :: "ChildIter \<Rightarrow> ChildIter" where
  "ChildIter_inc it = (if fCount it > 0 then ChildIter_loop it else it\<lparr> fCount := - 1 \<rparr>)"

text \<open>
  The constructor and \<^verbatim>\<open>reset()\<close> (PatternGenerator.h, lines 62-77): \<^verbatim>\<open>fCount\<close> becomes
  \<^verbatim>\<open>1 << nbits\<close> and the iterator moves to the first child.
\<close>

definition ChildIter_ctor :: "int list \<Rightarrow> ChildIter" where
  "ChildIter_ctor parent =
     ChildIter_inc \<lparr> fParent = parent, fChildPat = parent,
                     fCount = 2 ^ length parent, fType = 0 \<rparr>"

lemma fCount_ChildIter_loop:
  "fCount (ChildIter_loop it) < fCount it \<and> (0 \<le> fCount it \<longrightarrow> - 1 \<le> fCount (ChildIter_loop it))"
proof (induction it rule: ChildIter_loop.induct)
  case (1 it)
  show ?case
  proof (cases "fCount it \<le> 0")
    case True
    then show ?thesis by (subst (1 2) ChildIter_loop.simps) simp
  next
    case False
    obtain child minbit maxbit where
      a: "assign_bits (fParent it) (fCount it - 1) (length (fChildPat it)) (fChildPat it, 1, 0)
            = (child, minbit, maxbit)"
      by (metis prod_cases3)
    show ?thesis
    proof (cases "maxbit - minbit > \<bar>GetWidth child\<bar>")
      case True
      from "1.IH" [OF False a [symmetric] refl True] False
      have "fCount (ChildIter_loop (it\<lparr>fCount := fCount it - 1, fChildPat := child\<rparr>)) < fCount it
            \<and> - 1 \<le> fCount (ChildIter_loop (it\<lparr>fCount := fCount it - 1, fChildPat := child\<rparr>))"
        by simp
      then show ?thesis using False a True by (subst (1 2) ChildIter_loop.simps) simp
    next
      case stop: False
      show ?thesis using False a stop
        by (subst (1 2) ChildIter_loop.simps) (simp add: Let_def)
    qed
  qed
qed

lemma fCount_ChildIter_inc:
  "0 \<le> fCount it \<Longrightarrow>
     fCount (ChildIter_inc it) < fCount it \<and> - 1 \<le> fCount (ChildIter_inc it)"
  using fCount_ChildIter_loop [of it] by (simp add: ChildIter_inc_def)

section \<open>PatternGenerator (PatternGenerator.cxx)\<close>

text \<open>
  The members of the generator that \<^verbatim>\<open>Generate\<close> sets once and the recursion only reads
  are the record \<open>PatternGenerator\<close>. The member the recursion changes, \<^verbatim>\<open>fHashTable\<close>, is
  kept with the free store of patterns in the record \<open>build\<close>, the state that the
  functions below pass along. A bucket of the hash table is the list of the patterns its
  chain of links points to, the head of the chain first.

  Two properties of the class \<^verbatim>\<open>Pattern\<close> that the sources do not show are parameters
  of the functions below: \<open>H\<close> is \<^verbatim>\<open>Pattern::Hash\<close>, a function of the bins, and \<open>m0\<close>
  is the value of \<^verbatim>\<open>fMinDepth\<close> in a newly constructed pattern.
\<close>

record PatternGenerator =
  fNlevels :: nat
  fNplanes :: nat
  fMaxSlope :: real
  fZ :: "real list"

record build =
  fHashTable :: "nat list list"
  store :: "Pattern list"

text \<open>\<^verbatim>\<open>new Pattern\<close>: the new pattern has no child links; the result is its address.\<close>

definition new_Pattern :: "nat \<Rightarrow> int list \<Rightarrow> build \<Rightarrow> nat \<times> build" where
  "new_Pattern m0 bits st =
     (length (store st),
      st\<lparr> store := store st @ [\<lparr> fBits = bits, fChild = [], fMinDepth = m0 \<rparr>] \<rparr>)"

text \<open>
  Modelled from the spec: \<^verbatim>\<open>Pattern::UsedAtDepth\<close>, which "lowers min_depth to d if d
  is smaller", and \<^verbatim>\<open>Pattern::AddChild\<close>, which puts a new link in front of the child
  list, as \<^verbatim>\<open>AddHash\<close> does with a bucket's chain.
\<close>

definition UsedAtDepth :: "nat \<Rightarrow> nat \<Rightarrow> build \<Rightarrow> build" where
  "UsedAtDepth pat depth st =
     st\<lparr> store := (store st)[pat := (store st ! pat)
            \<lparr> fMinDepth := min depth (fMinDepth (store st ! pat)) \<rparr>] \<rparr>"

definition AddChild :: "nat \<Rightarrow> nat \<Rightarrow> int \<Rightarrow> build \<Rightarrow> build" where
  "AddChild parent child type st =
     st\<lparr> store := (store st)[parent := (store st ! parent)
            \<lparr> fChild := (child, type) # fChild (store st ! parent) \<rparr>] \<rparr>"

text \<open>
  \<^verbatim>\<open>PatternGenerator::AddHash\<close> (lines 233-250). The first call sizes the table to
  \<^verbatim>\<open>1 << (fNlevels-1)\<close> empty buckets.
\<close>

definition AddHash :: "(int list \<Rightarrow> nat) \<Rightarrow> PatternGenerator \<Rightarrow> nat \<Rightarrow> build \<Rightarrow> build" where
  "AddHash H g pat st =
     (let table = (if length (fHashTable st) = 0
                   then replicate (2 ^ (fNlevels g - 1)) []
                   else fHashTable st);
          hash = H (fBits (store st ! pat)) mod length table
      in st\<lparr> fHashTable := table[hash := pat # table ! hash] \<rparr>)"

text \<open>
  \<^verbatim>\<open>PatternGenerator::Find\<close> (lines 395-410), with its \<^verbatim>\<open>assert(hashsize)\<close>: the first
  pattern of the bucket with the bins of \<open>pat\<close>, if there is one.
\<close>

definition Find :: "(int list \<Rightarrow> nat) \<Rightarrow> int list \<Rightarrow> build \<Rightarrow> failure + nat option" where
  "Find H pat st =
     (if length (fHashTable st) = 0 then Inl AssertionFailed
      else Inr (find (\<lambda>rhs. pat = fBits (store st ! rhs))
                  (fHashTable st ! (H pat mod length (fHashTable st)))))"

text \<open>
  \<^verbatim>\<open>PatternGenerator::TestSlope\<close> (lines 339-344). The width is converted to
  \<^verbatim>\<open>UInt_t\<close>, which is written out as \<open>mod 2 ^ 32\<close>; the division is one of doubles
  there and of reals here.
\<close>

definition TestSlope :: "PatternGenerator \<Rightarrow> int list \<Rightarrow> nat \<Rightarrow> bool" where
  "TestSlope g pat depth =
     (let width = GetWidth pat mod 2 ^ 32
      in width < 2 \<or> \<bar>real_of_int (width - 1) / 2 ^ depth\<bar> \<le> fMaxSlope g)"

text \<open>
  The loop of \<^verbatim>\<open>PatternGenerator::LineCheck\<close> (lines 363-390) over the planes
  \<^verbatim>\<open>i = fNplanes-2, ..., 1\<close>; the state is \<^verbatim>\<open>xL\<close>, \<^verbatim>\<open>xRm1\<close>, \<^verbatim>\<open>zL\<close>, \<^verbatim>\<open>zR\<close>. The doubles
  of the code are real numbers here.
\<close>

primrec LineCheck_planes ::
  "real list \<Rightarrow> int list \<Rightarrow> nat \<Rightarrow> real \<times> real \<times> real \<times> real \<Rightarrow> bool"
where
  "LineCheck_planes z pat 0 s = True"
| "LineCheck_planes z pat (Suc k) s =
     (case s of (xL, xRm1, zL, zR) \<Rightarrow>
        (let i = Suc k;
             dL = xL * z ! i - real_of_int (pat ! i) * zL;
             dR = xRm1 * z ! i - real_of_int (pat ! i) * zR
         in if \<bar>dL\<bar> \<ge> zL then False
            else if \<bar>dR\<bar> \<ge> zR then False
            else LineCheck_planes z pat k
                   (if i > 1
                    then (if dR < 0 then real_of_int (pat ! i) else xL,
                          if dL > 0 then real_of_int (pat ! i) else xRm1,
                          if dR < 0 then z ! i else zL,
                          if dL > 0 then z ! i else zR)
                    else s)))"

text \<open>\<^verbatim>\<open>PatternGenerator::LineCheck\<close> (lines 347-392), with its \<^verbatim>\<open>assert(fNplanes)\<close>.\<close>

definition LineCheck :: "PatternGenerator \<Rightarrow> int list \<Rightarrow> failure + bool" where
  "LineCheck g pat =
     (if fNplanes g = 0 then Inl AssertionFailed
      else
        (let xL = real_of_int (pat ! (fNplanes g - 1));
             zL = fZ g ! (fNplanes g - 1)
         in Inr (LineCheck_planes (fZ g) pat (fNplanes g - 2) (xL, xL, zL, zL))))"

text \<open>
  The body of the \<^verbatim>\<open>while( it )\<close> loop of \<^verbatim>\<open>MakeChildNodes\<close> (lines 430-447) for one
  candidate \<open>child\<close> with its \<open>type\<close>.
\<close>

definition try_child ::
  "(int list \<Rightarrow> nat) \<Rightarrow> nat \<Rightarrow> PatternGenerator \<Rightarrow> nat \<Rightarrow> nat \<Rightarrow> int list \<Rightarrow> int \<Rightarrow> build
     \<Rightarrow> failure + build"
where
  "try_child H m0 g parent depth child type st =
     (case Find H child st of
        Inl e \<Rightarrow> Inl e
      | Inr (Some node) \<Rightarrow>
          if depth \<ge> fMinDepth (store st ! node) \<or> TestSlope g (fBits (store st ! node)) depth
          then Inr (AddChild parent node type st)
          else Inr st
      | Inr None \<Rightarrow>
          if TestSlope g child depth
          then (case LineCheck g child of
                  Inl e \<Rightarrow> Inl e
                | Inr ok \<Rightarrow>
                    if ok
                    then (case new_Pattern m0 child st of
                            (node, st1) \<Rightarrow>
                              Inr (AddChild parent node type (AddHash H g node st1)))
                    else Inr st)
          else Inr st)"

text \<open>The \<^verbatim>\<open>while( it )\<close> loop of \<^verbatim>\<open>MakeChildNodes\<close> (lines 429-449).\<close>

function make_children ::
  "(int list \<Rightarrow> nat) \<Rightarrow> nat \<Rightarrow> PatternGenerator \<Rightarrow> nat \<Rightarrow> nat \<Rightarrow> ChildIter \<Rightarrow> build
     \<Rightarrow> failure + build"
where
  "make_children H m0 g parent depth it st =
     (if fCount it \<ge> 0
      then (case try_child H m0 g parent depth (fChildPat it) (fType it) st of
              Inl e \<Rightarrow> Inl e
            | Inr st' \<Rightarrow> make_children H m0 g parent depth (ChildIter_inc it) st')
      else Inr st)"
  by pat_completeness auto
termination
proof (relation "measure (\<lambda>(H, m0, g, parent, depth, it, st). nat (fCount it + 1))")
  show "wf (measure (\<lambda>(H, m0, g, parent, depth, it, st). nat (fCount it + 1)))"
    by simp
next
  fix H :: "int list \<Rightarrow> nat" and m0 :: nat and g :: PatternGenerator
    and parent depth :: nat and it :: ChildIter and st x2 :: build
  assume "0 \<le> fCount it"
  with fCount_ChildIter_inc [of it]
  show "((H, m0, g, parent, depth, ChildIter_inc it, x2), (H, m0, g, parent, depth, it, st))
          \<in> measure (\<lambda>(H, m0, g, parent, depth, it, st). nat (fCount it + 1))"
    by simp
qed

declare make_children.simps [simp del]

text \<open>
  The loop over the child links at the end of \<^verbatim>\<open>MakeChildNodes\<close> (lines 453-463);
  \<open>recurse node st\<close> stands for the call \<^verbatim>\<open>MakeChildNodes( node, depth+1 )\<close>. A link
  list that is not empty is never changed again, so the links the loop walks are the
  ones it starts with.
\<close>

fun walk_children ::
  "(nat \<Rightarrow> build \<Rightarrow> failure + build) \<Rightarrow> nat \<Rightarrow> (nat \<times> int) list \<Rightarrow> build \<Rightarrow> failure + build"
where
  "walk_children recurse depth [] st = Inr st"
| "walk_children recurse depth (lnk # lnks) st =
     (if fChild (store st ! fst lnk) = [] \<or> fMinDepth (store st ! fst lnk) > depth
      then (case recurse (fst lnk) st of
              Inl e \<Rightarrow> Inl e
            | Inr st' \<Rightarrow> walk_children recurse depth lnks st')
      else walk_children recurse depth lnks st)"

text \<open>\<^verbatim>\<open>PatternGenerator::MakeChildNodes\<close> (lines 413-464).\<close>

function MakeChildNodes ::
  "(int list \<Rightarrow> nat) \<Rightarrow> nat \<Rightarrow> PatternGenerator \<Rightarrow> nat \<Rightarrow> nat \<Rightarrow> build \<Rightarrow> failure + build"
where
  "MakeChildNodes H m0 g parent depth st =
     (let st1 = (if depth > 0 then UsedAtDepth parent (depth - 1) st else st)
      in if depth \<ge> fNlevels g then Inr st1
         else
           (case (if fChild (store st1 ! parent) = []
                  then make_children H m0 g parent depth
                         (ChildIter_ctor (fBits (store st1 ! parent))) st1
                  else Inr st1) of
              Inl e \<Rightarrow> Inl e
            | Inr st2 \<Rightarrow>
                walk_children (\<lambda>node s. MakeChildNodes H m0 g node (depth + 1) s) depth
                  (fChild (store st2 ! parent)) st2))"
  by pat_completeness auto

lemma MakeChildNodes_total: "All MakeChildNodes_dom"
  by (relation "measure (\<lambda>(H, m0, g, parent, depth, st). fNlevels g - depth)") auto

termination MakeChildNodes
  by (rule MakeChildNodes_total)

declare MakeChildNodes.simps [simp del]

section \<open>Generate\<close>

text \<open>
  Modelled from the spec: \<^verbatim>\<open>TreeParam_t\<close> and \<^verbatim>\<open>PatternTree::Normalize\<close> (PatternTree.h
  and PatternTree.cxx are not among the sources). Normalisation "validates: N >= 2,
  z-positions strictly increasing, max_slope >= 0, max_depth >= 1", and it rescales the
  plane positions to the interval from 0 to 1 and the width to 1.
\<close>

record TreeParam_t =
  maxdepth :: nat
  width :: real
  zpos :: "real list"
  maxslope :: real

definition valid_parameters :: "TreeParam_t \<Rightarrow> bool" where
  "valid_parameters p \<longleftrightarrow>
     2 \<le> length (zpos p) \<and> sorted_wrt (<) (zpos p) \<and> 0 \<le> maxslope p \<and> 1 \<le> maxdepth p"

definition Normalize :: "TreeParam_t \<Rightarrow> failure + TreeParam_t" where
  "Normalize p =
     (if valid_parameters p
      then Inr (p\<lparr> width := 1,
                   zpos := map (\<lambda>z. (z - hd (zpos p)) / (last (zpos p) - hd (zpos p))) (zpos p) \<rparr>)
      else Inl InvalidParameters)"

text \<open>
  The constructor \<^verbatim>\<open>PatternGenerator::PatternGenerator\<close> (lines 86-90): the hash table of
  a new generator is the empty vector, and the generator has allocated no pattern. Its
  other members are set by \<^verbatim>\<open>Generate\<close> before they are read.
\<close>

definition PatternGenerator_ctor :: build where
  "PatternGenerator_ctor = \<lparr> fHashTable = [], store = [] \<rparr>"

text \<open>
  \<^verbatim>\<open>PatternGenerator::Generate\<close> (lines 253-306), up to the end of the recursion: the
  parameters are normalised, the all-zero root pattern is created and hashed, and
  \<^verbatim>\<open>MakeChildNodes( root, 1 )\<close> builds the tree. \<open>this\<close> is the hash table of the generator
  and the patterns it has allocated when \<^verbatim>\<open>Generate\<close> is called: the function does not
  clear the table, only the destructor does (\<^verbatim>\<open>DoTree( kDelete )\<close>), and it hashes the new
  root without a call of \<^verbatim>\<open>Find\<close>. The result is the generator's members and the state
  of the build, which is where a further call of \<^verbatim>\<open>Generate\<close> on the same generator
  starts.
\<close>

definition generator_of :: "TreeParam_t \<Rightarrow> PatternGenerator" where
  "generator_of p =
     \<lparr> fNlevels = maxdepth p + 1, fNplanes = length (zpos p), fMaxSlope = maxslope p,
       fZ = zpos p \<rparr>"

definition Generate ::
  "(int list \<Rightarrow> nat) \<Rightarrow> nat \<Rightarrow> TreeParam_t \<Rightarrow> build \<Rightarrow> failure + (PatternGenerator \<times> build)"
where
  "Generate H m0 parameters this =
     (case Normalize parameters of
        Inl e \<Rightarrow> Inl e
      | Inr p \<Rightarrow>
          (let g = generator_of p in
           case new_Pattern m0 (replicate (fNplanes g) 0) this of
             (rootpat, st0) \<Rightarrow>
               (case MakeChildNodes H m0 g rootpat 1 (AddHash H g rootpat st0) of
                  Inl e \<Rightarrow> Inl e
                | Inr st \<Rightarrow> Inr (g, st))))"

text \<open>
  \<^verbatim>\<open>PatternGenerator::CalcStatistics\<close> (lines 131-176): the number of patterns in the
  hash table and the number of child links of these patterns.
\<close>

definition nPatterns :: "build \<Rightarrow> nat" where
  "nPatterns st = length (concat (fHashTable st))"

definition nLinks :: "build \<Rightarrow> nat" where
  "nLinks st = sum_list (map (\<lambda>pat. length (fChild (store st ! pat))) (concat (fHashTable st)))"

section \<open>The states of a build\<close>

text \<open>
  The functions below are \<^verbatim>\<open>MakeChildNodes\<close> and \<^verbatim>\<open>Generate\<close> once more, statement by
  statement, but what they return is the list of the states that the build passes
  through: one state after each statement that changes the hash table or a pattern
  (\<^verbatim>\<open>new Pattern\<close>, \<^verbatim>\<open>AddHash\<close>, \<^verbatim>\<open>AddChild\<close>, \<^verbatim>\<open>UsedAtDepth\<close>), in the order of
  execution. The state that the function above returns is the last of them.
\<close>

text \<open>
  The body of the \<^verbatim>\<open>while( it )\<close> loop (lines 430-447): no state if the candidate is
  dropped, one if a link to a pattern that \<^verbatim>\<open>Find\<close> has found is added, and three if the
  candidate is new (after \<^verbatim>\<open>new Pattern\<close>, after \<^verbatim>\<open>AddHash\<close>, after \<^verbatim>\<open>AddChild\<close>).
\<close>

definition try_child_states ::
  "(int list \<Rightarrow> nat) \<Rightarrow> nat \<Rightarrow> PatternGenerator \<Rightarrow> nat \<Rightarrow> nat \<Rightarrow> int list \<Rightarrow> int \<Rightarrow> build
     \<Rightarrow> failure + build list"
where
  "try_child_states H m0 g parent depth child type st =
     (case Find H child st of
        Inl e \<Rightarrow> Inl e
      | Inr (Some node) \<Rightarrow>
          if depth \<ge> fMinDepth (store st ! node) \<or> TestSlope g (fBits (store st ! node)) depth
          then Inr [AddChild parent node type st]
          else Inr []
      | Inr None \<Rightarrow>
          if TestSlope g child depth
          then (case LineCheck g child of
                  Inl e \<Rightarrow> Inl e
                | Inr ok \<Rightarrow>
                    if ok
                    then (case new_Pattern m0 child st of
                            (node, st1) \<Rightarrow>
                              Inr [st1, AddHash H g node st1,
                                   AddChild parent node type (AddHash H g node st1)])
                    else Inr [])
          else Inr [])"

text \<open>The \<^verbatim>\<open>while( it )\<close> loop (lines 429-449); each pass starts in the last state so far.\<close>

function make_children_states ::
  "(int list \<Rightarrow> nat) \<Rightarrow> nat \<Rightarrow> PatternGenerator \<Rightarrow> nat \<Rightarrow> nat \<Rightarrow> ChildIter \<Rightarrow> build
     \<Rightarrow> failure + build list"
where
  "make_children_states H m0 g parent depth it st =
     (if fCount it \<ge> 0
      then (case try_child_states H m0 g parent depth (fChildPat it) (fType it) st of
              Inl e \<Rightarrow> Inl e
            | Inr sts \<Rightarrow>
                (case make_children_states H m0 g parent depth (ChildIter_inc it)
                        (last (st # sts)) of
                   Inl e \<Rightarrow> Inl e
                 | Inr sts' \<Rightarrow> Inr (sts @ sts')))
      else Inr [])"
  by pat_completeness auto
termination
proof (relation "measure (\<lambda>(H, m0, g, parent, depth, it, st). nat (fCount it + 1))")
  show "wf (measure (\<lambda>(H, m0, g, parent, depth, it, st). nat (fCount it + 1)))"
    by simp
next
  fix H :: "int list \<Rightarrow> nat" and m0 :: nat and g :: PatternGenerator
    and parent depth :: nat and it :: ChildIter and st :: build and x2 :: "build list"
  assume "0 \<le> fCount it"
  with fCount_ChildIter_inc [of it]
  show "((H, m0, g, parent, depth, ChildIter_inc it, last (st # x2)),
         (H, m0, g, parent, depth, it, st))
          \<in> measure (\<lambda>(H, m0, g, parent, depth, it, st). nat (fCount it + 1))"
    by simp
qed

declare make_children_states.simps [simp del]

text \<open>The loop over the child links (lines 453-463).\<close>

fun walk_children_states ::
  "(nat \<Rightarrow> build \<Rightarrow> failure + build list) \<Rightarrow> nat \<Rightarrow> (nat \<times> int) list \<Rightarrow> build
     \<Rightarrow> failure + build list"
where
  "walk_children_states recurse depth [] st = Inr []"
| "walk_children_states recurse depth (lnk # lnks) st =
     (if fChild (store st ! fst lnk) = [] \<or> fMinDepth (store st ! fst lnk) > depth
      then (case recurse (fst lnk) st of
              Inl e \<Rightarrow> Inl e
            | Inr sts \<Rightarrow>
                (case walk_children_states recurse depth lnks (last (st # sts)) of
                   Inl e \<Rightarrow> Inl e
                 | Inr sts' \<Rightarrow> Inr (sts @ sts')))
      else walk_children_states recurse depth lnks st)"

text \<open>
  \<^verbatim>\<open>MakeChildNodes\<close> (lines 413-464): the state after \<^verbatim>\<open>UsedAtDepth\<close> if \<^verbatim>\<open>depth > 0\<close>, then
  the states of the first loop, then those of the second loop.
\<close>

function MakeChildNodes_states ::
  "(int list \<Rightarrow> nat) \<Rightarrow> nat \<Rightarrow> PatternGenerator \<Rightarrow> nat \<Rightarrow> nat \<Rightarrow> build \<Rightarrow> failure + build list"
where
  "MakeChildNodes_states H m0 g parent depth st =
     (let sts1 = (if depth > 0 then [UsedAtDepth parent (depth - 1) st] else []);
          st1 = last (st # sts1)
      in if depth \<ge> fNlevels g then Inr sts1
         else
           (case (if fChild (store st1 ! parent) = []
                  then make_children_states H m0 g parent depth
                         (ChildIter_ctor (fBits (store st1 ! parent))) st1
                  else Inr []) of
              Inl e \<Rightarrow> Inl e
            | Inr sts2 \<Rightarrow>
                (case walk_children_states
                        (\<lambda>node s. MakeChildNodes_states H m0 g node (depth + 1) s) depth
                        (fChild (store (last (st1 # sts2)) ! parent)) (last (st1 # sts2)) of
                   Inl e \<Rightarrow> Inl e
                 | Inr sts3 \<Rightarrow> Inr (sts1 @ sts2 @ sts3))))"
  by pat_completeness auto
termination
  by (relation "measure (\<lambda>(H, m0, g, parent, depth, st). fNlevels g - depth)") auto

declare MakeChildNodes_states.simps [simp del]

text \<open>
  The states of \<^verbatim>\<open>Generate\<close>: the state it starts from, the one after \<^verbatim>\<open>new Pattern\<close>,
  the one after \<^verbatim>\<open>AddHash( root )\<close>, and those of \<^verbatim>\<open>MakeChildNodes( root, 1 )\<close>.
\<close>

definition Generate_states ::
  "(int list \<Rightarrow> nat) \<Rightarrow> nat \<Rightarrow> TreeParam_t \<Rightarrow> build \<Rightarrow> failure + build list"
where
  "Generate_states H m0 parameters this =
     (case Normalize parameters of
        Inl e \<Rightarrow> Inl e
      | Inr p \<Rightarrow>
          (let g = generator_of p in
           case new_Pattern m0 (replicate (fNplanes g) 0) this of
             (rootpat, st0) \<Rightarrow>
               (case MakeChildNodes_states H m0 g rootpat 1 (AddHash H g rootpat st0) of
                  Inl e \<Rightarrow> Inl e
                | Inr sts \<Rightarrow> Inr (this # st0 # AddHash H g rootpat st0 # sts))))"

section \<open>Invariants\<close>

text \<open>
  The predicates below are not part of the program: they state what the proofs show to
  hold of the iterator of hit pairs, of the iterator of child patterns and of the build.
\<close>

subsection \<open>HitPairIter\<close>

text \<open>
  What has been published so far: \<open>EA\<close> holds the hits published as first components,
  \<open>EB\<close> those published as second components. The invariant says that every hit the
  cursors have passed is either published or the pending one in \<^verbatim>\<open>fNext\<close>.
\<close>

definition iter_inv :: "'h HitPairIter \<Rightarrow> 'h set \<Rightarrow> 'h set \<Rightarrow> bool" where
  "iter_inv it EA EB \<longleftrightarrow>
     fStarted it \<and>
     fIterA it \<le> length (fCollA it) \<and> fIterB it \<le> length (fCollB it) \<and>
     (\<forall>i<fIterA it. fCollA it ! i \<in> EA \<or> fst (fNext it) = Some (fCollA it ! i)) \<and>
     (\<forall>i<fIterB it. fCollB it ! i \<in> EB \<or> snd (fNext it) = Some (fCollB it ! i)) \<and>
     (fst (fNext it) = None \<longrightarrow> fIterA it = length (fCollA it)) \<and>
     (snd (fNext it) = None \<longrightarrow> set (fCollB it) \<subseteq> EB) \<and>
     (fScanning it \<longrightarrow> fSaveIter it \<le> fIterB it \<and> (\<exists>h\<in>EB. fSaveHit it = Some h))"

definition apart :: "'h HitPairIter \<Rightarrow> nat" where
  "apart it = (if fst (fNext it) = None then 0 else 1) + (length (fCollA it) - fIterA it)"

definition bpart :: "'h HitPairIter \<Rightarrow> nat" where
  "bpart it = (if snd (fNext it) = None then 0 else 1) + (length (fCollB it) - fIterB it)"

subsection \<open>ChildIter\<close>

text \<open>
  Canonical bins: as many as there are planes, none negative, the first one 0. A child
  with its type is admissible for a parent when its bins are canonical, the type is 0, 1
  or 2, and type 2 comes with the all-zero parent only.
\<close>

definition bits_ok :: "nat \<Rightarrow> int list \<Rightarrow> bool" where
  "bits_ok N bits \<longleftrightarrow> length bits = N \<and> 0 < N \<and> bits ! 0 = 0 \<and> (\<forall>j<N. 0 \<le> bits ! j)"

definition child_ok :: "int list \<Rightarrow> int list \<Rightarrow> int \<Rightarrow> bool" where
  "child_ok parent child type \<longleftrightarrow>
     bits_ok (length parent) child \<and> (type = 0 \<or> type = 1 \<or> type = 2) \<and>
     (type = 2 \<longrightarrow> parent = replicate (length parent) 0)"

definition candidate :: "int list \<Rightarrow> int \<Rightarrow> nat \<Rightarrow> int" where
  "candidate parent count j = 2 * parent ! j + (if bit count j then 1 else 0)"

text \<open>
  What holds of the iterator between two calls of \<^verbatim>\<open>operator++\<close>: it keeps the parent,
  and while it is not exhausted its current child is admissible.
\<close>

definition iter_ok :: "int list \<Rightarrow> ChildIter \<Rightarrow> bool" where
  "iter_ok parent it \<longleftrightarrow>
     fParent it = parent \<and> length (fChildPat it) = length parent \<and>
     (0 \<le> fCount it \<longrightarrow> child_ok parent (fChildPat it) (fType it))"

subsection \<open>The build\<close>

text \<open>
  The hash table: it has buckets, it holds exactly the patterns of the store, no two of
  its patterns have the same bins, and every pattern is in the bucket of its hash.
\<close>

definition table_inv :: "(int list \<Rightarrow> nat) \<Rightarrow> build \<Rightarrow> bool" where
  "table_inv H st \<longleftrightarrow>
     fHashTable st \<noteq> [] \<and>
     set (concat (fHashTable st)) = {..<length (store st)} \<and>
     distinct (map (\<lambda>a. fBits (store st ! a)) (concat (fHashTable st))) \<and>
     (\<forall>i<length (fHashTable st). \<forall>a\<in>set (fHashTable st ! i).
        H (fBits (store st ! a)) mod length (fHashTable st) = i)"

text \<open>
  The store: the first pattern is the all-zero root, all patterns have canonical bins,
  and every pattern but the root passes \<^verbatim>\<open>LineCheck\<close>.
\<close>

definition store_inv :: "PatternGenerator \<Rightarrow> build \<Rightarrow> bool" where
  "store_inv g st \<longleftrightarrow>
     0 < length (store st) \<and> fBits (store st ! 0) = replicate (fNplanes g) 0 \<and>
     (\<forall>a<length (store st). bits_ok (fNplanes g) (fBits (store st ! a))) \<and>
     (\<forall>a<length (store st). a \<noteq> 0 \<longrightarrow> LineCheck g (fBits (store st ! a)) = Inr True)"

text \<open>
  The links: each points to a pattern of the store, its type is 0, 1 or 2, and a link of
  type 2 is in the child list of the root.
\<close>

definition links_inv :: "build \<Rightarrow> bool" where
  "links_inv st \<longleftrightarrow>
     (\<forall>a<length (store st). \<forall>lnk\<in>set (fChild (store st ! a)).
        fst lnk < length (store st) \<and> (snd lnk = 0 \<or> snd lnk = 1 \<or> snd lnk = 2) \<and>
        (snd lnk = 2 \<longrightarrow> a = 0))"

definition build_inv :: "(int list \<Rightarrow> nat) \<Rightarrow> PatternGenerator \<Rightarrow> build \<Rightarrow> bool" where
  "build_inv H g st \<longleftrightarrow> table_inv H st \<and> store_inv g st \<and> links_inv st"

text \<open>The store only grows, and a pattern keeps its bins.\<close>

definition grows :: "build \<Rightarrow> build \<Rightarrow> bool" where
  "grows st st' \<longleftrightarrow>
     length (store st) \<le> length (store st') \<and>
     (\<forall>a<length (store st). fBits (store st' ! a) = fBits (store st ! a))"


section \<open>Properties of HitPairIter\<close>

lemma end_of_scan_frame:
  "end_of_scan cmp nb it = Inr it' \<Longrightarrow>
     fMaxDist it' = fMaxDist it \<and> fCollA it' = fCollA it \<and> fCollB it' = fCollB it \<and>
     fCurrent it' = fCurrent it \<and> fStarted it' = fStarted it"
  unfolding end_of_scan_def Let_def
  by (auto simp: stepA_def split: option.splits sum.splits prod.splits)

lemma pair_found_frame:
  "pair_found cmp a b it = Inr it' \<Longrightarrow>
     fMaxDist it' = fMaxDist it \<and> fCollA it' = fCollA it \<and> fCollB it' = fCollB it \<and>
     fCurrent it' = fCurrent it \<and> fStarted it' = fStarted it"
  unfolding pair_found_def
  by (auto simp: stepA_def stepB_def dest!: end_of_scan_frame split: if_splits)

lemma first_call_frame:
  "fMaxDist (first_call it) = fMaxDist it \<and> fCollA (first_call it) = fCollA it \<and>
   fCollB (first_call it) = fCollB it \<and> fStarted (first_call it)"
  by (simp add: first_call_def stepA_def stepB_def)

lemma Next_frame:
  "HitPairIter_Next cmp it = Inr it' \<Longrightarrow>
     fMaxDist it' = fMaxDist it \<and> fCollA it' = fCollA it \<and> fCollB it' = fCollB it \<and> fStarted it'"
  unfolding HitPairIter_Next_def Let_def
  by (auto simp: stepA_def stepB_def first_call_frame dest!: pair_found_frame
           split: option.splits if_splits prod.splits)

lemma Next_pair_matches:
  "HitPairIter_Next cmp it = Inr it' \<Longrightarrow> fCurrent it' = (Some a, Some b) \<Longrightarrow>
   cmp a b (fMaxDist it) \<noteq> - 1 \<and> cmp a b (fMaxDist it) \<noteq> 1"
  unfolding HitPairIter_Next_def Let_def
  by (auto simp: stepA_def stepB_def first_call_frame dest!: pair_found_frame
           split: option.splits if_splits prod.splits)

lemma Next_times_Suc_last:
  "Next_times cmp (Suc n) it =
     (case Next_times cmp n it of Inl e \<Rightarrow> Inl e | Inr it' \<Rightarrow> HitPairIter_Next cmp it')"
proof (induction n arbitrary: it)
  case 0
  show ?case by (simp split: sum.splits)
next
  case (Suc n)
  show ?case
  proof (cases "HitPairIter_Next cmp it")
    case (Inl e)
    then show ?thesis by simp
  next
    case (Inr it1)
    have "Next_times cmp (Suc (Suc n)) it = Next_times cmp (Suc n) it1"
      using Inr by simp
    also have "\<dots> = (case Next_times cmp n it1 of Inl e \<Rightarrow> Inl e
                      | Inr it' \<Rightarrow> HitPairIter_Next cmp it')"
      by (rule Suc.IH)
    also have "Next_times cmp n it1 = Next_times cmp (Suc n) it"
      using Inr by simp
    finally show ?thesis .
  qed
qed

lemma Next_times_frame:
  "Next_times cmp n it = Inr it' \<Longrightarrow>
     fMaxDist it' = fMaxDist it \<and> fCollA it' = fCollA it \<and> fCollB it' = fCollB it"
proof (induction n arbitrary: it)
  case 0
  then show ?case by simp
next
  case (Suc n)
  then obtain it1 where s: "HitPairIter_Next cmp it = Inr it1" and r: "Next_times cmp n it1 = Inr it'"
    by (auto split: sum.splits)
  from Suc.IH [OF r] Next_frame [OF s] show ?case by simp
qed

lemma Next_times_pair_matches:
  assumes three: "\<forall>x y d. cmp x y d = - 1 \<or> cmp x y d = 0 \<or> cmp x y d = 1"
    and run: "Next_times cmp (Suc n) (HitPairIter_members collA collB maxdist) = Inr it"
    and both: "fCurrent it = (Some a, Some b)"
  shows "cmp a b maxdist = 0"
proof -
  from run obtain it1 where
    before: "Next_times cmp n (HitPairIter_members collA collB maxdist) = Inr it1" and
    last: "HitPairIter_Next cmp it1 = Inr it"
    unfolding Next_times_Suc_last by (auto split: sum.splits)
  from Next_times_frame [OF before] have "fMaxDist it1 = maxdist"
    by (simp add: HitPairIter_members_def)
  with Next_pair_matches [OF last both]
  have "cmp a b maxdist \<noteq> - 1" and "cmp a b maxdist \<noteq> 1" by simp_all
  with three show ?thesis by blast
qed

text \<open>
  Claim C1 (pair-iterator soundness). Whatever the two collections and the tolerance
  are, a pair that a call of \<^verbatim>\<open>Next()\<close> publishes with both hits present (the call in
  the constructor is the first one) compares as 0 under \<^verbatim>\<open>Compare\<close> with the iterator's
  tolerance. \<^verbatim>\<open>Compare\<close> is any three-valued function, as the spec describes it.
\<close>

theorem HitPairIter_Next_sound:
  assumes three: "\<forall>x y d. cmp x y d = - 1 \<or> cmp x y d = 0 \<or> cmp x y d = 1"
    and run: "Next_times cmp (Suc n) (HitPairIter_members collA collB maxdist) = Inr it"
    and both: "fCurrent it = (Some a, Some b)"
  shows "cmp a b maxdist = 0"
  using assms by (rule Next_times_pair_matches)

lemma Hit_Compare_three_valued:
  "\<forall>x y d. Hit_Compare x y d = - 1 \<or> Hit_Compare x y d = 0 \<or> Hit_Compare x y d = 1"
  by (simp add: Hit_Compare_def)

lemmas HitPairIter_eval =
  HitPairIter_Next_def HitPairIter_members_def first_call_def pair_found_def end_of_scan_def
  nextA_def nextB_def stepA_def stepB_def TIterator_Next_def Hit_Compare_def Let_def

theorem HitPairIter_Next_sound_witness:
  "(\<forall>x y d. Hit_Compare x y d = - 1 \<or> Hit_Compare x y d = 0 \<or> Hit_Compare x y d = 1) \<and>
   (\<exists>it. Next_times Hit_Compare (Suc 0)
           (HitPairIter_members [\<lparr>plane_num = 0, pos = 1\<rparr>] [\<lparr>plane_num = 1, pos = 6 / 5\<rparr>] (1 / 2))
           = Inr it \<and>
         fCurrent it = (Some \<lparr>plane_num = 0, pos = 1\<rparr>, Some \<lparr>plane_num = 1, pos = 6 / 5\<rparr>)) \<and>
   Hit_Compare \<lparr>plane_num = 0, pos = 1\<rparr> \<lparr>plane_num = 1, pos = 6 / 5\<rparr> (1 / 2) = 0"
proof -
  let ?a = "\<lparr>plane_num = 0, pos = 1\<rparr>" and ?b = "\<lparr>plane_num = 1, pos = 6 / 5\<rparr>"
  have three: "\<forall>x y d. Hit_Compare x y d = - 1 \<or> Hit_Compare x y d = 0 \<or> Hit_Compare x y d = 1"
    by (rule Hit_Compare_three_valued)
  obtain it where run: "Next_times Hit_Compare (Suc 0) (HitPairIter_members [?a] [?b] (1 / 2)) = Inr it"
    and cur: "fCurrent it = (Some ?a, Some ?b)"
    by (simp add: HitPairIter_eval)
  from HitPairIter_Next_sound [OF three run cur] three run cur show ?thesis by blast
qed

text \<open>
  Claim C8 (scenario S5). With A = [x=1.0], B = [x=0.8, x=1.1, x=1.3] and maxdist = 0.5,
  the first four calls of \<^verbatim>\<open>Next()\<close> (the constructor makes the first) publish
  (A[0],B[0]), (A[0],B[1]), (A[0],B[2]) and then the all-absent pair. The plane numbers of
  the hits play no part.
\<close>

theorem HitPairIter_scan_S5:
  "emissions Hit_Compare 4
     (HitPairIter_members [\<lparr>plane_num = pa, pos = 1\<rparr>]
        [\<lparr>plane_num = pb0, pos = 8 / 10\<rparr>, \<lparr>plane_num = pb1, pos = 11 / 10\<rparr>,
         \<lparr>plane_num = pb2, pos = 13 / 10\<rparr>] (5 / 10))
   = [(Some \<lparr>plane_num = pa, pos = 1\<rparr>, Some \<lparr>plane_num = pb0, pos = 8 / 10\<rparr>),
      (Some \<lparr>plane_num = pa, pos = 1\<rparr>, Some \<lparr>plane_num = pb1, pos = 11 / 10\<rparr>),
      (Some \<lparr>plane_num = pa, pos = 1\<rparr>, Some \<lparr>plane_num = pb2, pos = 13 / 10\<rparr>),
      (None, None)]"
  by (simp add: HitPairIter_eval numeral_eq_Suc)

text \<open>
  Claim C3 (copy equivalence) fails on the code. The iterator over A = [x=1.0, x=5.0] and
  B = [x=1.2, x=5.2] with maxdist = 0.5 publishes (A[1],B[1]) at its next call; a copy of
  it whose \<^verbatim>\<open>fMaxDist\<close> came out as 0 publishes (A[1], absent) instead.
\<close>

theorem HitPairIter_copy_diverges:
  "\<exists>it. HitPairIter_ctor Hit_Compare
           [\<lparr>plane_num = 0, pos = 1\<rparr>, \<lparr>plane_num = 0, pos = 5\<rparr>]
           [\<lparr>plane_num = 1, pos = 6 / 5\<rparr>, \<lparr>plane_num = 1, pos = 26 / 5\<rparr>] (1 / 2) = Inr it \<and>
         emissions Hit_Compare 1 it
           = [(Some \<lparr>plane_num = 0, pos = 5\<rparr>, Some \<lparr>plane_num = 1, pos = 26 / 5\<rparr>)] \<and>
         emissions Hit_Compare 1 (HitPairIter_copy 0 it)
           = [(Some \<lparr>plane_num = 0, pos = 5\<rparr>, None)]"
  by (simp add: HitPairIter_ctor_def HitPairIter_copy_def HitPairIter_eval)

subsection \<open>Every hit is published\<close>

lemma nextA_eq:
  "nextA it = (if fIterA it < length (fCollA it) then Some (fCollA it ! fIterA it) else None)"
  by (simp add: nextA_def TIterator_Next_def)

lemma nextB_eq:
  "nextB it = (if fIterB it < length (fCollB it) then Some (fCollB it ! fIterB it) else None)"
  by (simp add: nextB_def TIterator_Next_def)

lemma stepA_eq:
  "stepA it = it\<lparr> fIterA := (if fIterA it < length (fCollA it) then Suc (fIterA it) else fIterA it) \<rparr>"
  by (simp add: stepA_def TIterator_Next_def)

lemma stepB_eq:
  "stepB it = it\<lparr> fIterB := (if fIterB it < length (fCollB it) then Suc (fIterB it) else fIterB it) \<rparr>"
  by (simp add: stepB_def TIterator_Next_def)

lemma scan_forward_inv:
  assumes "\<forall>j<e. coll ! j \<in> EB" "e \<le> length coll"
    and "nb = (if e < length coll then Some (coll ! e) else None)"
    and "(i \<le> e \<and> (\<exists>h\<in>EB. hitB = Some h)) \<or> (hitB = nb \<and> i \<le> Suc e \<and> i \<le> length coll)"
  shows "\<exists>hb ib. scan_forward cmp coll d a nb hitB i = Inr (hb, ib) \<and> ib \<le> length coll \<and>
           (\<forall>j<ib. coll ! j \<in> EB \<or> hb = Some (coll ! j)) \<and>
           (hb = None \<longrightarrow> set coll \<subseteq> EB)"
  using assms
proof (induction cmp coll d a nb hitB i rule: scan_forward.induct)
  case (1 cmp coll d a nb hitB i)
  note pre = "1.prems"
  show ?case
  proof (cases "hitB = nb")
    case True
    have all: "nb = None \<Longrightarrow> set coll \<subseteq> EB"
      using pre(1,2,3) by (auto simp: in_set_conv_nth split: if_splits)
    have "\<forall>j<i. coll ! j \<in> EB \<or> hitB = Some (coll ! j)"
    proof (intro allI impI)
      fix j assume "j < i"
      show "coll ! j \<in> EB \<or> hitB = Some (coll ! j)"
      proof (cases "j < e")
        case True
        with pre(1) show ?thesis by simp
      next
        case False
        with \<open>j < i\<close> pre(4) have "j = e" "hitB = nb" "e < length coll" by auto
        with pre(3) show ?thesis by simp
      qed
    qed
    moreover have "i \<le> length coll" using pre(2,4) by auto
    ultimately show ?thesis
      using True all by (subst scan_forward.simps) simp
  next
    case False
    with pre(4) obtain h where h: "hitB = Some h" "h \<in> EB" and ie: "i \<le> e" by auto
    show ?thesis
    proof (cases "cmp h a d < 0")
      case stop: False
      have "\<forall>j<i. coll ! j \<in> EB" using pre(1) ie by simp
      then show ?thesis
        using False h stop ie pre(2) by (subst scan_forward.simps) simp
    next
      case True
      have nxt: "(snd (TIterator_Next coll i) \<le> e \<and> (\<exists>h\<in>EB. fst (TIterator_Next coll i) = Some h)) \<or>
            (fst (TIterator_Next coll i) = nb \<and> snd (TIterator_Next coll i) \<le> Suc e \<and>
             snd (TIterator_Next coll i) \<le> length coll)"
      proof (cases "i < e")
        case True
        then show ?thesis using pre(1,2) by (simp add: TIterator_Next_def)
      next
        case False
        with ie have "i = e" by simp
        then show ?thesis using pre(2,3) by (simp add: TIterator_Next_def)
      qed
      have "scan_forward cmp coll d a nb hitB i =
            scan_forward cmp coll d a nb (fst (TIterator_Next coll i)) (snd (TIterator_Next coll i))"
        using False h True by (subst scan_forward.simps) simp
      moreover note "1.IH" [OF False h(1) True pre(1,2,3) nxt]
      ultimately show ?thesis by simp
    qed
  qed
qed

lemma all_less_Suc:
  "(\<forall>j<Suc n. P j) \<longleftrightarrow> (\<forall>j<n. P j) \<and> P n"
  by (auto simp: less_Suc_eq)

lemma set_subset_nth:
  "(\<forall>j<length xs. xs ! j \<in> S) \<Longrightarrow> set xs \<subseteq> S"
  by (auto simp: in_set_conv_nth)

lemma end_of_scan_step:
  assumes inv: "iter_inv it EA EB" and nx: "fNext it = (Some a, Some b)"
    and sc: "fScanning it"
  shows "\<exists>it'. end_of_scan cmp (nextB it) (stepB it) = Inr it' \<and>
           iter_inv it' (insert a EA) (insert b EB) \<and> apart it' < apart it"
proof (cases "nextA it")
  case None
  have "set (fCollB it) \<subseteq> insert b EB" if "nextB it = None"
    using that inv nx by (intro set_subset_nth) (auto simp: iter_inv_def nextB_eq split: if_splits)
  moreover have "\<forall>j<fSaveIter it. fCollB it ! j \<in> insert b EB"
  proof (intro allI impI)
    fix j assume "j < fSaveIter it"
    moreover have "fSaveIter it \<le> fIterB it" using inv sc by (simp add: iter_inv_def)
    ultimately have "j < fIterB it" by simp
    moreover have "\<forall>i<fIterB it. fCollB it ! i \<in> EB \<or> snd (fNext it) = Some (fCollB it ! i)"
      using inv by (simp add: iter_inv_def)
    ultimately show "fCollB it ! j \<in> insert b EB" using nx by auto
  qed
  ultimately show ?thesis
    using None inv nx sc unfolding end_of_scan_def Let_def
    by (auto simp: iter_inv_def apart_def nextA_eq stepA_eq stepB_eq split: if_splits)
next
  case (Some a')
  let ?B = "fCollB it" and ?e = "fIterB it"
  have 1: "\<forall>j<?e. ?B ! j \<in> insert b EB" using inv nx by (auto simp: iter_inv_def)
  have 2: "?e \<le> length ?B" using inv by (simp add: iter_inv_def)
  have 3: "nextB it = (if ?e < length ?B then Some (?B ! ?e) else None)" by (simp add: nextB_eq)
  have 4: "(fSaveIter it \<le> ?e \<and> (\<exists>h\<in>insert b EB. fSaveHit it = Some h)) \<or>
           (fSaveHit it = nextB it \<and> fSaveIter it \<le> Suc ?e \<and> fSaveIter it \<le> length ?B)"
    using inv sc by (auto simp: iter_inv_def)
  from scan_forward_inv [OF 1 2 3 4, of cmp "fMaxDist it" a']
  obtain hb ib where
    r: "scan_forward cmp ?B (fMaxDist it) a' (nextB it) (fSaveHit it) (fSaveIter it) = Inr (hb, ib)"
    and ib: "ib \<le> length ?B"
    and seen: "\<forall>j<ib. ?B ! j \<in> insert b EB \<or> hb = Some (?B ! j)"
    and none: "hb = None \<longrightarrow> set ?B \<subseteq> insert b EB"
    by blast
  define it' where
    "it' = (stepA ((stepB it)\<lparr>fScanning := False, fIterB := fSaveIter it\<rparr>))
             \<lparr>fIterB := ib, fNext := (Some a', hb)\<rparr>"
  have e: "end_of_scan cmp (nextB it) (stepB it) = Inr it'"
    using Some r
    by (auto simp: end_of_scan_def Let_def it'_def nextA_eq stepA_eq stepB_eq split: if_splits)
  have i: "iter_inv it' (insert a EA) (insert b EB)"
    using inv nx Some ib seen none
    by (auto simp: iter_inv_def it'_def nextA_eq stepA_eq stepB_eq all_less_Suc split: if_splits)
  have m: "apart it' < apart it"
    using inv nx Some
    by (auto simp: iter_inv_def apart_def it'_def nextA_eq stepA_eq stepB_eq split: if_splits)
  from e i m show ?thesis by blast
qed

lemma pair_found_step:
  assumes inv: "iter_inv it EA EB" and nx: "fNext it = (Some a, Some b)"
  shows "\<exists>it'. pair_found cmp a b it = Inr it' \<and> fCurrent it' = fCurrent it \<and>
           iter_inv it' (insert a EA) (insert b EB) \<and>
           (apart it' < apart it \<or> apart it' = apart it \<and> bpart it' < bpart it)"
proof (cases "case nextB it of None \<Rightarrow> True | Some b' \<Rightarrow> cmp a b' (fMaxDist it) < 0")
  case stop: True
  show ?thesis
  proof (cases "fScanning it")
    case True
    from end_of_scan_step [OF inv nx True, of cmp] obtain it' where
      e: "end_of_scan cmp (nextB it) (stepB it) = Inr it'"
      and i: "iter_inv it' (insert a EA) (insert b EB)" and m: "apart it' < apart it"
      by blast
    from end_of_scan_frame [OF e] have "fCurrent it' = fCurrent it" by (simp add: stepB_eq)
    with e i m stop True show ?thesis by (simp add: pair_found_def)
  next
    case False
    have "set (fCollB it) \<subseteq> insert b EB" if "nextB it = None"
      using that inv nx by (intro set_subset_nth) (auto simp: iter_inv_def nextB_eq split: if_splits)
    then show ?thesis
      using stop False inv nx unfolding pair_found_def
      by (auto simp: iter_inv_def apart_def nextA_eq nextB_eq stepA_eq stepB_eq all_less_Suc
               split: if_splits)
  qed
next
  case False
  then obtain b' where b': "nextB it = Some b'" by (auto split: option.splits)
  show ?thesis
    using False b' inv nx unfolding pair_found_def
    by (auto simp: iter_inv_def apart_def bpart_def nextB_eq stepB_eq all_less_Suc
             split: if_splits)
qed

lemma first_call_started: "fStarted it \<Longrightarrow> first_call it = it"
  by (simp add: first_call_def)

lemma iter_inv_publish:
  "iter_inv (it\<lparr>fCurrent := c\<rparr>) EA EB = iter_inv it EA EB"
  by (simp add: iter_inv_def)

lemma Next_step:
  assumes inv: "iter_inv it EA EB" and more: "fNext it \<noteq> (None, None)"
  shows "\<exists>it'. HitPairIter_Next cmp it = Inr it' \<and>
           iter_inv it' (EA \<union> set_option (fst (fCurrent it')))
                        (EB \<union> set_option (snd (fCurrent it'))) \<and>
           (apart it' < apart it \<or> apart it' = apart it \<and> bpart it' < bpart it)"
proof -
  have st: "first_call it = it" using inv by (simp add: iter_inv_def first_call_started)
  let ?p = "it\<lparr>fCurrent := fNext it\<rparr>"
  obtain x y where nx: "fNext it = (x, y)" by (cases "fNext it")
  show ?thesis
  proof (cases x)
    case None
    with more nx obtain b where y: "y = Some b" by auto
    have "set (fCollB it) \<subseteq> insert b EB" if "nextB it = None"
      using that inv nx y by (intro set_subset_nth) (auto simp: iter_inv_def nextB_eq split: if_splits)
    then show ?thesis
      using inv nx None y unfolding HitPairIter_Next_def Let_def st
      by (auto simp: iter_inv_def apart_def bpart_def nextB_eq stepB_eq all_less_Suc
               split: if_splits)
  next
    case (Some a)
    note a = Some
    show ?thesis
    proof (cases y)
      case None
      show ?thesis
        using inv nx a None unfolding HitPairIter_Next_def Let_def st
        by (auto simp: iter_inv_def apart_def nextA_eq stepA_eq all_less_Suc split: if_splits)
    next
      case (Some b)
      consider (less) "cmp a b (fMaxDist it) = - 1"
        | (greater) "cmp a b (fMaxDist it) \<noteq> - 1" "cmp a b (fMaxDist it) = 1"
        | (pair) "cmp a b (fMaxDist it) \<noteq> - 1" "cmp a b (fMaxDist it) \<noteq> 1"
        by blast
      then show ?thesis
      proof cases
        case less
        show ?thesis
          using inv nx a Some less unfolding HitPairIter_Next_def Let_def st
          by (auto simp: iter_inv_def apart_def nextA_eq stepA_eq all_less_Suc split: if_splits)
      next
        case greater
        have "set (fCollB it) \<subseteq> insert b EB" if "nextB it = None"
          using that inv nx Some
          by (intro set_subset_nth) (auto simp: iter_inv_def nextB_eq split: if_splits)
        then show ?thesis
          using inv nx a Some greater unfolding HitPairIter_Next_def Let_def st
          by (auto simp: iter_inv_def apart_def bpart_def nextB_eq stepB_eq all_less_Suc
                   split: if_splits)
      next
        case pair
        have invp: "iter_inv ?p EA EB" using inv by (simp add: iter_inv_publish)
        have nxp: "fNext ?p = (Some a, Some b)" using nx a Some by simp
        from pair_found_step [OF invp nxp, of cmp] obtain it' where
          f: "pair_found cmp a b ?p = Inr it'" and c: "fCurrent it' = fCurrent ?p"
          and i: "iter_inv it' (insert a EA) (insert b EB)"
          and m: "apart it' < apart ?p \<or> apart it' = apart ?p \<and> bpart it' < bpart ?p"
          by blast
        have "HitPairIter_Next cmp it = Inr it'"
          using f pair nx a Some unfolding HitPairIter_Next_def Let_def st by simp
        moreover have "fCurrent it' = (Some a, Some b)" using c nx a Some by simp
        moreover have "apart ?p = apart it" "bpart ?p = bpart it"
          by (simp_all add: apart_def bpart_def)
        ultimately show ?thesis using i m by auto
      qed
    qed
  qed
qed

lemma wf_pending:
  "wf (inv_image (less_than <*lex*> less_than) (\<lambda>it. (apart it, bpart it)))"
  by (intro wf_inv_image wf_lex_prod wf_less_than)

lemma Next_run:
  "iter_inv it EA EB \<Longrightarrow>
   \<exists>n it'. Next_times cmp n it = Inr it' \<and> fNext it' = (None, None) \<and>
     iter_inv it' (EA \<union> {h. \<exists>p\<in>set (emissions cmp n it). fst p = Some h})
                  (EB \<union> {h. \<exists>p\<in>set (emissions cmp n it). snd p = Some h})"
  using wf_pending
proof (induction it arbitrary: EA EB rule: wf_induct_rule)
  case (less it)
  show ?case
  proof (cases "fNext it = (None, None)")
    case True
    have "Next_times cmp 0 it = Inr it" by simp
    moreover have "emissions cmp 0 it = []" by simp
    ultimately show ?thesis using True less.prems by (intro exI [of _ 0] exI [of _ it]) simp
  next
    case False
    from Next_step [OF less.prems False, of cmp] obtain it1 where
      s: "HitPairIter_Next cmp it = Inr it1"
      and i: "iter_inv it1 (EA \<union> set_option (fst (fCurrent it1)))
                           (EB \<union> set_option (snd (fCurrent it1)))"
      and m: "apart it1 < apart it \<or> apart it1 = apart it \<and> bpart it1 < bpart it"
      by blast
    from m have "(it1, it) \<in> inv_image (less_than <*lex*> less_than) (\<lambda>it. (apart it, bpart it))"
      by auto
    from less.IH [OF this i] obtain n it' where
      r: "Next_times cmp n it1 = Inr it'" and t: "fNext it' = (None, None)"
      and i': "iter_inv it'
          (EA \<union> set_option (fst (fCurrent it1)) \<union> {h. \<exists>p\<in>set (emissions cmp n it1). fst p = Some h})
          (EB \<union> set_option (snd (fCurrent it1)) \<union> {h. \<exists>p\<in>set (emissions cmp n it1). snd p = Some h})"
      by blast
    have "Next_times cmp (Suc n) it = Inr it'" using s r by simp
    moreover have "emissions cmp (Suc n) it = fCurrent it1 # emissions cmp n it1" using s by simp
    moreover have
      "EA \<union> set_option (fst (fCurrent it1)) \<union> {h. \<exists>p\<in>set (emissions cmp n it1). fst p = Some h}
        = EA \<union> {h. \<exists>p\<in>set (fCurrent it1 # emissions cmp n it1). fst p = Some h}"
      by (cases "fst (fCurrent it1)") auto
    moreover have
      "EB \<union> set_option (snd (fCurrent it1)) \<union> {h. \<exists>p\<in>set (emissions cmp n it1). snd p = Some h}
        = EB \<union> {h. \<exists>p\<in>set (fCurrent it1 # emissions cmp n it1). snd p = Some h}"
      by (cases "snd (fCurrent it1)") auto
    ultimately show ?thesis using t i' by (intro exI [of _ "Suc n"] exI [of _ it']) simp
  qed
qed

lemma Next_first_call:
  "HitPairIter_Next cmp (first_call it) = HitPairIter_Next cmp it"
proof -
  have "fStarted (first_call it)" by (simp add: first_call_def)
  then have "first_call (first_call it) = first_call it" by (rule first_call_started)
  then show ?thesis unfolding HitPairIter_Next_def by simp
qed

lemma emissions_first_call:
  "emissions cmp n (first_call it) = emissions cmp n it"
  by (cases n) (simp_all add: Next_first_call)

lemma emissions_published:
  "p \<in> set (emissions cmp n it) \<Longrightarrow>
   \<exists>k it'. Next_times cmp (Suc k) it = Inr it' \<and> fCurrent it' = p"
proof (induction n arbitrary: it)
  case 0
  then show ?case by simp
next
  case (Suc n)
  show ?case
  proof (cases "HitPairIter_Next cmp it")
    case (Inl e)
    with Suc.prems show ?thesis by simp
  next
    case (Inr it1)
    note s = Inr
    with Suc.prems have p: "p = fCurrent it1 \<or> p \<in> set (emissions cmp n it1)" by auto
    from p show ?thesis
    proof
      assume "p = fCurrent it1"
      with s have "Next_times cmp (Suc 0) it = Inr it1 \<and> fCurrent it1 = p" by simp
      then show ?thesis by blast
    next
      assume "p \<in> set (emissions cmp n it1)"
      from Suc.IH [OF this] obtain k it' where
        "Next_times cmp (Suc k) it1 = Inr it'" "fCurrent it' = p" by blast
      with s have "Next_times cmp (Suc (Suc k)) it = Inr it' \<and> fCurrent it' = p" by simp
      then show ?thesis by blast
    qed
  qed
qed

lemma iter_inv_first_call:
  "iter_inv (first_call (HitPairIter_members collA collB maxdist)) {} {}"
  by (auto simp: iter_inv_def first_call_def HitPairIter_members_def nextA_eq nextB_eq
        stepA_eq stepB_eq Suc_le_eq)

lemma all_published:
  "\<exists>n. (\<forall>h\<in>set collA. \<exists>p\<in>set (emissions cmp n (HitPairIter_members collA collB maxdist)).
            fst p = Some h) \<and>
       (\<forall>h\<in>set collB. \<exists>p\<in>set (emissions cmp n (HitPairIter_members collA collB maxdist)).
            snd p = Some h)"
proof -
  let ?m = "HitPairIter_members collA collB maxdist"
  from Next_run [OF iter_inv_first_call, of cmp collA collB maxdist]
  obtain n it' where r: "Next_times cmp n (first_call ?m) = Inr it'"
    and t: "fNext it' = (None, None)"
    and i: "iter_inv it' ({} \<union> {h. \<exists>p\<in>set (emissions cmp n (first_call ?m)). fst p = Some h})
                         ({} \<union> {h. \<exists>p\<in>set (emissions cmp n (first_call ?m)). snd p = Some h})"
    by blast
  from Next_times_frame [OF r] have c: "fCollA it' = collA" "fCollB it' = collB"
    by (simp_all add: first_call_frame HitPairIter_members_def)
  have "\<forall>j<length collA. collA ! j \<in> {h. \<exists>p\<in>set (emissions cmp n ?m). fst p = Some h}"
    using i t c by (auto simp: iter_inv_def emissions_first_call)
  then have "set collA \<subseteq> {h. \<exists>p\<in>set (emissions cmp n ?m). fst p = Some h}"
    by (rule set_subset_nth)
  moreover have "set collB \<subseteq> {h. \<exists>p\<in>set (emissions cmp n ?m). snd p = Some h}"
    using i t c by (auto simp: iter_inv_def emissions_first_call)
  ultimately show ?thesis by blast
qed

text \<open>
  Claim C2 (pair-iterator completeness). Whatever the two collections are, every hit of A
  is the first component of a pair that some call of \<^verbatim>\<open>Next()\<close> publishes, either alone
  or with a hit of B that compares as 0 with it; and every hit of B is the second
  component of a published pair in the same way. The calls are counted from the one the
  constructor makes, and none of them fails.
\<close>

theorem HitPairIter_complete:
  assumes three: "\<forall>x y d. cmp x y d = - 1 \<or> cmp x y d = 0 \<or> cmp x y d = 1"
  shows "(\<forall>h\<in>set collA. \<exists>n it.
            Next_times cmp (Suc n) (HitPairIter_members collA collB maxdist) = Inr it \<and>
            fst (fCurrent it) = Some h \<and>
            (\<forall>b. snd (fCurrent it) = Some b \<longrightarrow> cmp h b maxdist = 0)) \<and>
         (\<forall>h\<in>set collB. \<exists>n it.
            Next_times cmp (Suc n) (HitPairIter_members collA collB maxdist) = Inr it \<and>
            snd (fCurrent it) = Some h \<and>
            (\<forall>a. fst (fCurrent it) = Some a \<longrightarrow> cmp a h maxdist = 0))"
proof -
  let ?m = "HitPairIter_members collA collB maxdist"
  from all_published [of collA cmp collB maxdist] obtain n where
    pa: "\<forall>h\<in>set collA. \<exists>p\<in>set (emissions cmp n ?m). fst p = Some h" and
    pb: "\<forall>h\<in>set collB. \<exists>p\<in>set (emissions cmp n ?m). snd p = Some h"
    by blast
  have "\<exists>k it. Next_times cmp (Suc k) ?m = Inr it \<and> fst (fCurrent it) = Some h \<and>
          (\<forall>b. snd (fCurrent it) = Some b \<longrightarrow> cmp h b maxdist = 0)"
    if "h \<in> set collA" for h
  proof -
    from pa that obtain p where "p \<in> set (emissions cmp n ?m)" "fst p = Some h" by blast
    with emissions_published obtain k it where
      r: "Next_times cmp (Suc k) ?m = Inr it" and c: "fst (fCurrent it) = Some h"
      by metis
    have "cmp h b maxdist = 0" if "snd (fCurrent it) = Some b" for b
      using Next_times_pair_matches [OF three r, of h b] c that by (simp add: prod_eq_iff)
    with r c show ?thesis by blast
  qed
  moreover have "\<exists>k it. Next_times cmp (Suc k) ?m = Inr it \<and> snd (fCurrent it) = Some h \<and>
          (\<forall>a. fst (fCurrent it) = Some a \<longrightarrow> cmp a h maxdist = 0)"
    if "h \<in> set collB" for h
  proof -
    from pb that obtain p where "p \<in> set (emissions cmp n ?m)" "snd p = Some h" by blast
    with emissions_published obtain k it where
      r: "Next_times cmp (Suc k) ?m = Inr it" and c: "snd (fCurrent it) = Some h"
      by metis
    have "cmp a h maxdist = 0" if "fst (fCurrent it) = Some a" for a
      using Next_times_pair_matches [OF three r, of a h] c that by (simp add: prod_eq_iff)
    with r c show ?thesis by blast
  qed
  ultimately show ?thesis by blast
qed

theorem HitPairIter_complete_witness:
  "(\<forall>x y d. Hit_Compare x y d = - 1 \<or> Hit_Compare x y d = 0 \<or> Hit_Compare x y d = 1) \<and>
   (\<exists>n it. Next_times Hit_Compare (Suc n)
       (HitPairIter_members [\<lparr>plane_num = 0, pos = 1\<rparr>, \<lparr>plane_num = 0, pos = 5\<rparr>]
          [\<lparr>plane_num = 1, pos = 6 / 5\<rparr>, \<lparr>plane_num = 1, pos = 9\<rparr>] (1 / 2)) = Inr it \<and>
       fst (fCurrent it) = Some \<lparr>plane_num = 0, pos = 5\<rparr> \<and>
       (\<forall>b. snd (fCurrent it) = Some b \<longrightarrow> Hit_Compare \<lparr>plane_num = 0, pos = 5\<rparr> b (1 / 2) = 0)) \<and>
   (\<exists>n it. Next_times Hit_Compare (Suc n)
       (HitPairIter_members [\<lparr>plane_num = 0, pos = 1\<rparr>, \<lparr>plane_num = 0, pos = 5\<rparr>]
          [\<lparr>plane_num = 1, pos = 6 / 5\<rparr>, \<lparr>plane_num = 1, pos = 9\<rparr>] (1 / 2)) = Inr it \<and>
       snd (fCurrent it) = Some \<lparr>plane_num = 1, pos = 9\<rparr> \<and>
       (\<forall>a. fst (fCurrent it) = Some a \<longrightarrow> Hit_Compare a \<lparr>plane_num = 1, pos = 9\<rparr> (1 / 2) = 0))"
proof -
  note c = HitPairIter_complete [OF Hit_Compare_three_valued,
      of "[\<lparr>plane_num = 0, pos = 1\<rparr>, \<lparr>plane_num = 0, pos = 5\<rparr>]"
         "[\<lparr>plane_num = 1, pos = 6 / 5\<rparr>, \<lparr>plane_num = 1, pos = 9\<rparr>]" "1 / 2"]
  from c [THEN conjunct1, THEN bspec, of "\<lparr>plane_num = 0, pos = 5\<rparr>"]
       c [THEN conjunct2, THEN bspec, of "\<lparr>plane_num = 1, pos = 9\<rparr>"]
       Hit_Compare_three_valued
  show ?thesis by simp
qed

section \<open>Properties of HitSet\<close>

lemma bit_plane_mask: "bit (plane_mask n) p \<longleftrightarrow> p = n mod 32"
  by (auto simp: plane_mask_def bit_exp_iff)

lemma bit_fold_planes:
  "bit (fold (\<lambda>h curpat. curpat OR plane_mask (plane h)) hs pat) p \<longleftrightarrow>
     bit pat p \<or> (\<exists>h\<in>set hs. plane h mod 32 = p)"
proof (induction hs arbitrary: pat)
  case Nil
  show ?case by simp
next
  case (Cons h hs)
  have "bit (pat OR plane_mask (plane h)) p \<longleftrightarrow> bit pat p \<or> p = plane h mod 32"
    unfolding bit_or_iff bit_plane_mask ..
  with Cons.IH [of "pat OR plane_mask (plane h)"] show ?case
    unfolding List.fold_simps list.set by blast
qed

lemma bit_GetMatchValue:
  "bit (GetMatchValue plane hs) p \<longleftrightarrow> (\<exists>h\<in>set hs. plane h mod 32 = p)"
  unfolding GetMatchValue_def bit_fold_planes by simp

lemma intersection_pattern_fold:
  "intersection_pattern key_comp plane hs ts pat =
     fold (\<lambda>h curpat. curpat OR plane_mask (plane h)) (merge_order_intersection key_comp hs ts) pat"
  by (induction key_comp plane hs ts pat rule: intersection_pattern.induct) simp_all

lemma intersection_pattern_GetMatchValue:
  "intersection_pattern key_comp plane hs ts 0 =
     GetMatchValue plane (merge_order_intersection key_comp hs ts)"
  unfolding intersection_pattern_fold GetMatchValue_def ..

lemma merge_order_intersection_common:
  "t \<in> set (merge_order_intersection key_comp hs ts) \<Longrightarrow>
     t \<in> set ts \<and> (\<exists>h\<in>set hs. \<not> key_comp t h \<and> \<not> key_comp h t)"
  by (induction key_comp hs ts rule: merge_order_intersection.induct) (auto split: if_splits)

text \<open>
  Claim C5 as stated fails where \<^verbatim>\<open>tryset.plane_pattern\<close> is 0: for two empty hit sets the
  pattern of the intersection equals the cached pattern of \<^verbatim>\<open>tryset\<close>, yet the call does
  not return true, it stops at the assertion.
\<close>

theorem IsSimilarTo_empty_counterexample:
  "GetMatchValue plane_num
       (merge_order_intersection (\<lambda>a b. pos a < pos b)
          (hits \<lparr>hits = [], plane_pattern = 0\<rparr>) (hits \<lparr>hits = [], plane_pattern = 0\<rparr>))
     = plane_pattern \<lparr>hits = [] :: Hit list, plane_pattern = 0\<rparr> \<and>
   IsSimilarTo (\<lambda>a b. pos a < pos b) plane_num
       \<lparr>hits = [], plane_pattern = 0\<rparr> \<lparr>hits = [], plane_pattern = 0\<rparr> = Inl AssertionFailed \<and>
   IsSimilarTo (\<lambda>a b. pos a < pos b) plane_num
       \<lparr>hits = [], plane_pattern = 0\<rparr> \<lparr>hits = [], plane_pattern = 0\<rparr> \<noteq> Inr True"
  by (simp add: IsSimilarTo_def GetMatchValue_def)


text \<open>
  The second part of the claim also needs the plane numbers of \<^verbatim>\<open>tryset\<close> to be below 32,
  the width of the pattern. A hit of plane 32 sets bit 0 of the pattern: the call below
  returns true, bit 0 of the cached pattern is set, and \<^verbatim>\<open>tryset\<close> has no hit of plane 0.
\<close>

lemma IsSimilarTo_plane_32:
  "GetMatchValue plane_num [\<lparr>plane_num = 32, pos = 10\<rparr>] = 1 \<and>
   IsSimilarTo (\<lambda>a b. pos a < pos b) plane_num
       \<lparr>hits = [\<lparr>plane_num = 32, pos = 10\<rparr>], plane_pattern = 1\<rparr>
       \<lparr>hits = [\<lparr>plane_num = 32, pos = 10\<rparr>], plane_pattern = 1\<rparr> = Inr True \<and>
   bit (plane_pattern \<lparr>hits = [\<lparr>plane_num = 32, pos = 10\<rparr>], plane_pattern = 1\<rparr>) 0 \<and>
   \<not> (\<exists>t\<in>set (hits \<lparr>hits = [\<lparr>plane_num = 32, pos = 10\<rparr>], plane_pattern = 1\<rparr>).
         plane_num t = 0)"
  by (simp add: IsSimilarTo_def GetMatchValue_def plane_mask_def)

text \<open>
  Claim C5, amended. A call with a \<^verbatim>\<open>tryset\<close> whose cached plane pattern is 0 stops at the
  assertion, whatever the two sets hold. For a \<^verbatim>\<open>tryset\<close> whose cached pattern is not 0,
  \<^verbatim>\<open>IsSimilarTo\<close> returns whether the plane pattern (\<^verbatim>\<open>GetMatchValue\<close>) of the
  intersection found in merge order equals the cached pattern. If moreover the hits of
  \<^verbatim>\<open>tryset\<close> have plane numbers below 32, then the call returns true if and only if the
  bits set in the cached pattern are exactly the plane numbers of the hits of the
  intersection; and when it returns true, every plane whose bit is set in the cached
  pattern has a hit of \<^verbatim>\<open>tryset\<close> with an equal (neither before the other under the
  ordering) in this set.
\<close>

theorem IsSimilarTo_intersection:
  "IsSimilarTo key_comp plane this (tryset\<lparr>plane_pattern := 0\<rparr>) = Inl AssertionFailed \<and>
   (plane_pattern tryset \<noteq> 0 \<longrightarrow>
      IsSimilarTo key_comp plane this tryset
        = Inr (GetMatchValue plane
                 (merge_order_intersection key_comp (hits this) (hits tryset))
                 = plane_pattern tryset)) \<and>
   (plane_pattern tryset \<noteq> 0 \<and> (\<forall>t\<in>set (hits tryset). plane t < 32) \<longrightarrow>
      (IsSimilarTo key_comp plane this tryset = Inr True \<longleftrightarrow>
         (\<forall>p. bit (plane_pattern tryset) p \<longleftrightarrow>
            (\<exists>t\<in>set (merge_order_intersection key_comp (hits this) (hits tryset)).
               plane t = p))) \<and>
      (IsSimilarTo key_comp plane this tryset = Inr True \<longrightarrow>
         (\<forall>p. bit (plane_pattern tryset) p \<longrightarrow>
            (\<exists>t\<in>set (hits tryset). plane t = p \<and>
               (\<exists>h\<in>set (hits this). \<not> key_comp t h \<and> \<not> key_comp h t)))))"
proof -
  let ?I = "merge_order_intersection key_comp (hits this) (hits tryset)"
  have zero: "IsSimilarTo key_comp plane this (tryset\<lparr>plane_pattern := 0\<rparr>) = Inl AssertionFailed"
    by (simp add: IsSimilarTo_def)
  have eq: "IsSimilarTo key_comp plane this tryset
              = Inr (GetMatchValue plane ?I = plane_pattern tryset)"
    if "plane_pattern tryset \<noteq> 0"
    using that unfolding IsSimilarTo_def intersection_pattern_GetMatchValue by auto
  have sub: "t \<in> set (hits tryset)" if "t \<in> set ?I" for t
    using merge_order_intersection_common [OF that] by blast
  have bits: "bit (GetMatchValue plane ?I) p \<longleftrightarrow> (\<exists>t\<in>set ?I. plane t = p)"
    if b: "\<forall>t\<in>set (hits tryset). plane t < 32" for p
  proof -
    have "plane t mod 32 = plane t" if "t \<in> set ?I" for t
      using b sub [OF that] by simp
    then show ?thesis unfolding bit_GetMatchValue by auto
  qed
  have iff: "IsSimilarTo key_comp plane this tryset = Inr True \<longleftrightarrow>
               (\<forall>p. bit (plane_pattern tryset) p \<longleftrightarrow> (\<exists>t\<in>set ?I. plane t = p))"
    if nz: "plane_pattern tryset \<noteq> 0" and b: "\<forall>t\<in>set (hits tryset). plane t < 32"
  proof -
    have "IsSimilarTo key_comp plane this tryset = Inr True \<longleftrightarrow>
            plane_pattern tryset = GetMatchValue plane ?I"
      unfolding eq [OF nz] by auto
    also have "\<dots> \<longleftrightarrow> (\<forall>p. bit (plane_pattern tryset) p \<longleftrightarrow> bit (GetMatchValue plane ?I) p)"
      by (auto intro: bit_eqI)
    also have "\<dots> \<longleftrightarrow> (\<forall>p. bit (plane_pattern tryset) p \<longleftrightarrow> (\<exists>t\<in>set ?I. plane t = p))"
      unfolding bits [OF b] ..
    finally show ?thesis .
  qed
  have common: "\<exists>t\<in>set (hits tryset). plane t = p \<and>
          (\<exists>h\<in>set (hits this). \<not> key_comp t h \<and> \<not> key_comp h t)"
    if nz: "plane_pattern tryset \<noteq> 0" and b: "\<forall>t\<in>set (hits tryset). plane t < 32"
      and sim: "IsSimilarTo key_comp plane this tryset = Inr True"
      and p: "bit (plane_pattern tryset) p" for p
  proof -
    from iff [OF nz b] sim p obtain t where "t \<in> set ?I" "plane t = p" by blast
    with merge_order_intersection_common [of t key_comp "hits this" "hits tryset"]
    show ?thesis by blast
  qed
  from zero eq iff common show ?thesis by blast
qed

theorem IsSimilarTo_intersection_witness:
  "IsSimilarTo (\<lambda>a b. pos a < pos b) plane_num
     \<lparr>hits = [\<lparr>plane_num = 2, pos = 32\<rparr>], plane_pattern = 4\<rparr>
     \<lparr>hits = [\<lparr>plane_num = 2, pos = 32\<rparr>], plane_pattern = 0\<rparr> = Inl AssertionFailed \<and>
   plane_pattern \<lparr>hits = [\<lparr>plane_num = 2, pos = 32\<rparr>, \<lparr>plane_num = 3, pos = 40\<rparr>,
                          \<lparr>plane_num = 4, pos = 50\<rparr>, \<lparr>plane_num = 4, pos = 51\<rparr>],
                  plane_pattern = 28\<rparr> \<noteq> 0 \<and>
   list_all (\<lambda>t. plane_num t < 32)
     [\<lparr>plane_num = 2, pos = 32\<rparr>, \<lparr>plane_num = 3, pos = 40\<rparr>,
      \<lparr>plane_num = 4, pos = 50\<rparr>, \<lparr>plane_num = 4, pos = 51\<rparr>] \<and>
   IsSimilarTo (\<lambda>a b. pos a < pos b) plane_num
     \<lparr>hits = [\<lparr>plane_num = 0, pos = 30\<rparr>, \<lparr>plane_num = 2, pos = 32\<rparr>,
              \<lparr>plane_num = 3, pos = 40\<rparr>, \<lparr>plane_num = 4, pos = 50\<rparr>], plane_pattern = 29\<rparr>
     \<lparr>hits = [\<lparr>plane_num = 2, pos = 32\<rparr>, \<lparr>plane_num = 3, pos = 40\<rparr>,
              \<lparr>plane_num = 4, pos = 50\<rparr>, \<lparr>plane_num = 4, pos = 51\<rparr>], plane_pattern = 28\<rparr>
     = Inr True \<and>
   (\<exists>t\<in>set [\<lparr>plane_num = 2, pos = 32\<rparr>, \<lparr>plane_num = 3, pos = 40\<rparr>,
              \<lparr>plane_num = 4, pos = 50\<rparr>, \<lparr>plane_num = 4, pos = 51\<rparr>].
      plane_num t = 4 \<and>
      (\<exists>h\<in>set [\<lparr>plane_num = 0, pos = 30\<rparr>, \<lparr>plane_num = 2, pos = 32\<rparr>,
                 \<lparr>plane_num = 3, pos = 40\<rparr>, \<lparr>plane_num = 4, pos = 50\<rparr>].
         \<not> pos t < pos h \<and> \<not> pos h < pos t))"
proof -
  let ?A = "\<lparr>hits = [\<lparr>plane_num = 0, pos = 30\<rparr>, \<lparr>plane_num = 2, pos = 32\<rparr>,
              \<lparr>plane_num = 3, pos = 40\<rparr>, \<lparr>plane_num = 4, pos = 50\<rparr>], plane_pattern = 29\<rparr>"
  let ?T = "\<lparr>hits = [\<lparr>plane_num = 2, pos = 32\<rparr>, \<lparr>plane_num = 3, pos = 40\<rparr>,
              \<lparr>plane_num = 4, pos = 50\<rparr>, \<lparr>plane_num = 4, pos = 51\<rparr>], plane_pattern = 28\<rparr>"
  let ?Z = "\<lparr>hits = [\<lparr>plane_num = 2, pos = 32\<rparr>], plane_pattern = 4 :: 32 word\<rparr>"
  have nz: "plane_pattern ?T \<noteq> 0 \<and> (\<forall>t\<in>set (hits ?T). plane_num t < 32)" by simp
  have sim: "IsSimilarTo (\<lambda>a b. pos a < pos b) plane_num ?A ?T = Inr True"
    by (simp add: IsSimilarTo_def plane_mask_def)
  have b: "bit (plane_pattern ?T) 4" by simp
  from IsSimilarTo_intersection [of "\<lambda>a b. pos a < pos b" plane_num ?Z ?Z, THEN conjunct1]
  have z: "IsSimilarTo (\<lambda>a b. pos a < pos b) plane_num ?Z (?Z\<lparr>plane_pattern := 0\<rparr>)
             = Inl AssertionFailed" .
  from IsSimilarTo_intersection [of "\<lambda>a b. pos a < pos b" plane_num ?A ?T,
      THEN conjunct2, THEN conjunct2, rule_format, OF nz, THEN conjunct2, rule_format, OF sim b]
    nz sim z
  show ?thesis by simp
qed

section \<open>Properties of ChildIter\<close>

lemma assign_bits_result:
  "n \<le> length child \<Longrightarrow>
   assign_bits parent count n (child, mn, mx) = (child', mn', mx') \<Longrightarrow>
     length child' = length child \<and>
     (\<forall>j<n. child' ! j = candidate parent count j) \<and>
     (\<forall>j. n \<le> j \<longrightarrow> child' ! j = child ! j) \<and>
     mn' \<le> mn \<and> (\<forall>j<n. mn' \<le> candidate parent count j) \<and>
     (mn' = mn \<or> (\<exists>j<n. mn' = candidate parent count j)) \<and>
     mx \<le> mx' \<and> (\<forall>j<n. candidate parent count j \<le> mx') \<and>
     (mx' = mx \<or> (\<exists>j<n. mx' = candidate parent count j))"
proof (induction n arbitrary: child mn mx)
  case 0
  then show ?case by simp
next
  case (Suc n)
  let ?b = "candidate parent count n"
  from Suc.prems(2) have
    r: "assign_bits parent count n (child[n := ?b], min ?b mn, max ?b mx) = (child', mn', mx')"
    by (simp add: candidate_def Let_def)
  from Suc.prems(1) have "n \<le> length (child[n := ?b])" by simp
  from Suc.IH [OF this r] have
    l: "length child' = length child"
    and c: "\<forall>j<n. child' ! j = candidate parent count j"
    and k: "\<forall>j. n \<le> j \<longrightarrow> child' ! j = child[n := ?b] ! j"
    and m1: "mn' \<le> min ?b mn" and m2: "\<forall>j<n. mn' \<le> candidate parent count j"
    and m3: "mn' = min ?b mn \<or> (\<exists>j<n. mn' = candidate parent count j)"
    and x1: "max ?b mx \<le> mx'" and x2: "\<forall>j<n. candidate parent count j \<le> mx'"
    and x3: "mx' = max ?b mx \<or> (\<exists>j<n. mx' = candidate parent count j)"
    by simp_all
  have cn: "child' ! n = ?b" using k Suc.prems(1) by simp
  have c': "\<forall>j<Suc n. child' ! j = candidate parent count j"
    using c cn by (simp add: less_Suc_eq)
  have k': "\<forall>j. Suc n \<le> j \<longrightarrow> child' ! j = child ! j" using k by simp
  have m2': "\<forall>j<Suc n. mn' \<le> candidate parent count j"
    using m1 m2 by (simp add: less_Suc_eq)
  have m3': "mn' = mn \<or> (\<exists>j<Suc n. mn' = candidate parent count j)"
    using m3 by (auto simp: min_def less_Suc_eq split: if_splits)
  have x2': "\<forall>j<Suc n. candidate parent count j \<le> mx'"
    using x1 x2 by (simp add: less_Suc_eq)
  have x3': "mx' = mx \<or> (\<exists>j<Suc n. mx' = candidate parent count j)"
    using x3 by (auto simp: max_def less_Suc_eq split: if_splits)
  from l c' k' m1 m2' m3' x1 x2' x3' show ?case by simp
qed

lemma GetWidth_nth: "bits \<noteq> [] \<Longrightarrow> GetWidth bits = bits ! (length bits - 1) - bits ! 0"
  by (simp add: GetWidth_def last_conv_nth hd_conv_nth)

lemma candidate_ok:
  assumes p: "bits_ok N parent" and l0: "length child0 = N"
    and a: "assign_bits parent count N (child0, 1, 0) = (child, minbit, maxbit)"
    and t: "\<not> maxbit - minbit > \<bar>GetWidth child\<bar>"
  shows "child_ok parent
           (if GetWidth child < 0
            then map (\<lambda>b. - GetWidth child - b)
                   (if minbit = 0 then child else map (\<lambda>b. b - 1) child)
            else (if minbit = 0 then child else map (\<lambda>b. b - 1) child))
           (if GetWidth child < 0 then (if minbit = 0 then 0 else 1) + 2
            else (if minbit = 0 then 0 else 1))"
proof -
  let ?c = "candidate parent count"
  from p have N: "0 < N" and lp: "length parent = N" and p0: "parent ! 0 = 0"
    and pn: "\<forall>j<N. 0 \<le> parent ! j"
    by (simp_all add: bits_ok_def)
  from assign_bits_result [OF _ a] l0 have
    lc: "length child = N" and cj: "\<forall>j<N. child ! j = ?c j"
    and mn1: "minbit \<le> 1" and mnj: "\<forall>j<N. minbit \<le> ?c j"
    and mne: "minbit = 1 \<or> (\<exists>j<N. minbit = ?c j)"
    and mxj: "\<forall>j<N. ?c j \<le> maxbit"
    by simp_all
  have cpos: "\<forall>j<N. 0 \<le> ?c j" using pn by (simp add: candidate_def)
  have c0: "?c 0 \<le> 1" using p0 by (simp add: candidate_def)
  have mn0: "0 \<le> minbit" using mne cpos by auto
  have w: "GetWidth child = ?c (N - 1) - ?c 0"
    using GetWidth_nth [of child] lc N cj by auto
  show ?thesis
  proof (cases "GetWidth child < 0")
    case False
    have "?c (N - 1) \<le> maxbit" "minbit \<le> ?c 0" using mxj mnj N by simp_all
    with t False w have c0m: "?c 0 = minbit" by simp
    show ?thesis
    proof (cases "minbit = 0")
      case True
      then show ?thesis
        using False c0m lc lp N cj cpos by (simp add: child_ok_def bits_ok_def)
    next
      case nz: False
      with mn0 mn1 have m1: "minbit = 1" by simp
      have "\<forall>j<N. 0 \<le> ?c j - 1" using mnj m1 by auto
      then show ?thesis
        using False nz m1 c0m lc lp N cj by (simp add: child_ok_def bits_ok_def)
    qed
  next
    case True
    with w have lt: "?c (N - 1) < ?c 0" by simp
    have "0 \<le> ?c (N - 1)" using cpos N by simp
    with lt c0 have c01: "?c 0 = 1" and cN: "?c (N - 1) = 0" by simp_all
    have "minbit \<le> ?c (N - 1)" using mnj N by simp
    with cN mn0 have m0: "minbit = 0" by simp
    from w c01 cN have wv: "GetWidth child = - 1" by simp
    from t wv m0 have "maxbit \<le> 1" by simp
    with mxj have c1: "\<forall>j<N. ?c j \<le> 1" by auto
    have pz: "\<forall>j<N. parent ! j = 0"
    proof (intro allI impI)
      fix j assume j: "j < N"
      with c1 have "2 * parent ! j + (if bit count j then 1 else 0) \<le> 1"
        by (simp add: candidate_def)
      moreover have "0 \<le> parent ! j" using pn j by simp
      ultimately show "parent ! j = 0" by (simp split: if_splits)
    qed
    have zero: "parent = replicate (length parent) 0"
      using pz lp by (simp add: list_eq_iff_nth_eq)
    have "\<forall>j<N. 0 \<le> 1 - ?c j" using c1 by auto
    then show ?thesis
      using True m0 wv c01 lc lp N cj zero by (simp add: child_ok_def bits_ok_def)
  qed
qed

lemma ChildIter_loop_ok:
  "bits_ok N (fParent it) \<Longrightarrow> length (fChildPat it) = N \<Longrightarrow>
     iter_ok (fParent it) (ChildIter_loop it)"
proof (induction it rule: ChildIter_loop.induct)
  case (1 it)
  from "1.prems" have lp: "length (fParent it) = N" by (simp add: bits_ok_def)
  show ?case
  proof (cases "fCount it \<le> 0")
    case True
    then show ?thesis
      using "1.prems" lp by (subst ChildIter_loop.simps) (simp add: iter_ok_def)
  next
    case False
    obtain child minbit maxbit where
      a: "assign_bits (fParent it) (fCount it - 1) (length (fChildPat it)) (fChildPat it, 1, 0)
            = (child, minbit, maxbit)"
      by (metis prod_cases3)
    from assign_bits_result [OF _ a] have lc: "length child = N" using "1.prems"(2) by simp
    show ?thesis
    proof (cases "maxbit - minbit > \<bar>GetWidth child\<bar>")
      case True
      have "iter_ok (fParent (it\<lparr>fCount := fCount it - 1, fChildPat := child\<rparr>))
              (ChildIter_loop (it\<lparr>fCount := fCount it - 1, fChildPat := child\<rparr>))"
        using "1.IH" [OF False a [symmetric] refl True] "1.prems"(1) lc by simp
      then show ?thesis
        using False a True by (subst ChildIter_loop.simps) simp
    next
      case stop: False
      from candidate_ok [OF "1.prems"(1) "1.prems"(2) a [unfolded "1.prems"(2)] stop]
      show ?thesis
        using False a stop lc lp
        by (subst ChildIter_loop.simps) (auto simp: iter_ok_def Let_def split: if_splits)
    qed
  qed
qed

lemma ChildIter_inc_ok:
  assumes "bits_ok N parent" "iter_ok parent it"
  shows "iter_ok parent (ChildIter_inc it)"
proof (cases "fCount it > 0")
  case True
  from assms have "bits_ok N (fParent it)" "length (fChildPat it) = N"
    by (simp_all add: iter_ok_def bits_ok_def)
  from ChildIter_loop_ok [OF this] assms(2) True show ?thesis
    by (simp add: ChildIter_inc_def iter_ok_def)
next
  case False
  with assms(2) show ?thesis by (simp add: ChildIter_inc_def iter_ok_def)
qed

lemma ChildIter_ctor_ok:
  assumes "bits_ok N parent"
  shows "iter_ok parent (ChildIter_ctor parent)"
proof -
  let ?it = "\<lparr>fParent = parent, fChildPat = parent, fCount = 2 ^ length parent, fType = 0\<rparr>"
  have "bits_ok N (fParent ?it)" "length (fChildPat ?it) = N"
    using assms by (simp_all add: bits_ok_def)
  from ChildIter_loop_ok [OF this] show ?thesis
    by (simp add: ChildIter_ctor_def ChildIter_inc_def)
qed

section \<open>The build keeps its invariants\<close>

lemma in_concat_nth: "a \<in> set (concat t) \<longleftrightarrow> (\<exists>i<length t. a \<in> set (t ! i))"
proof
  assume "a \<in> set (concat t)"
  then obtain b where "b \<in> set t" "a \<in> set b" by auto
  then show "\<exists>i<length t. a \<in> set (t ! i)" by (metis in_set_conv_nth)
next
  assume "\<exists>i<length t. a \<in> set (t ! i)"
  then obtain i where "i < length t" "a \<in> set (t ! i)" by blast
  then have "t ! i \<in> set t" by simp
  with \<open>a \<in> set (t ! i)\<close> show "a \<in> set (concat t)" by auto
qed

lemma set_concat_push:
  "h < length t \<Longrightarrow> set (concat (t[h := x # t ! h])) = insert x (set (concat t))"
proof (induction t arbitrary: h)
  case Nil
  then show ?case by simp
next
  case (Cons b bs)
  then show ?case by (cases h) auto
qed

lemma distinct_concat_push:
  "h < length t \<Longrightarrow>
   distinct (map f (concat (t[h := x # t ! h]))) \<longleftrightarrow>
     f x \<notin> f ` set (concat t) \<and> distinct (map f (concat t))"
proof (induction t arbitrary: h)
  case Nil
  then show ?case by simp
next
  case (Cons b bs)
  show ?case
  proof (cases h)
    case 0
    then show ?thesis by auto
  next
    case (Suc k)
    with Cons.prems have k: "k < length bs" by simp
    from Cons.IH [OF k] set_concat_push [OF k, of x] Suc show ?thesis by auto
  qed
qed

lemma grows_refl: "grows st st"
  by (simp add: grows_def)

lemma grows_trans: "grows st st' \<Longrightarrow> grows st' st'' \<Longrightarrow> grows st st''"
  by (auto simp: grows_def)

lemma same_bins_same_pattern:
  assumes "table_inv H st" "a < length (store st)" "b < length (store st)"
    and "fBits (store st ! a) = fBits (store st ! b)"
  shows "a = b"
proof -
  from assms(1) have d: "distinct (map (\<lambda>a. fBits (store st ! a)) (concat (fHashTable st)))"
    and c: "set (concat (fHashTable st)) = {..<length (store st)}"
    unfolding table_inv_def by blast+
  from d have "inj_on (\<lambda>a. fBits (store st ! a)) (set (concat (fHashTable st)))"
    by (simp only: distinct_map)
  then have "inj_on (\<lambda>a. fBits (store st ! a)) {..<length (store st)}"
    by (simp only: c)
  with assms(2-4) show ?thesis by (auto dest: inj_onD)
qed

lemma Find_result:
  assumes t: "table_inv H st"
  shows "(Find H bits st = Inr None \<and> (\<forall>a<length (store st). fBits (store st ! a) \<noteq> bits)) \<or>
         (\<exists>n. Find H bits st = Inr (Some n) \<and> n < length (store st) \<and>
              fBits (store st ! n) = bits)"
proof -
  let ?t = "fHashTable st" and ?h = "H bits mod length (fHashTable st)"
  from t have ne: "?t \<noteq> []" and cover: "set (concat ?t) = {..<length (store st)}"
    and place: "\<forall>i<length ?t. \<forall>a\<in>set (?t ! i). H (fBits (store st ! a)) mod length ?t = i"
    by (simp_all add: table_inv_def)
  from ne have h: "?h < length ?t" by simp
  have F: "Find H bits st = Inr (find (\<lambda>rhs. bits = fBits (store st ! rhs)) (?t ! ?h))"
    using ne by (simp add: Find_def)
  show ?thesis
  proof (cases "find (\<lambda>rhs. bits = fBits (store st ! rhs)) (?t ! ?h)")
    case None
    then have no: "\<forall>a\<in>set (?t ! ?h). bits \<noteq> fBits (store st ! a)"
      by (simp add: find_None_iff)
    have "fBits (store st ! a) \<noteq> bits" if "a < length (store st)" for a
    proof
      assume eq: "fBits (store st ! a) = bits"
      from that cover have "a \<in> set (concat ?t)" by simp
      then obtain i where i: "i < length ?t" "a \<in> set (?t ! i)"
        unfolding in_concat_nth by blast
      with place have "H (fBits (store st ! a)) mod length ?t = i" by blast
      with eq i have "a \<in> set (?t ! ?h)" by simp
      with no eq show False by blast
    qed
    with F None show ?thesis by simp
  next
    case (Some n)
    then have n: "n \<in> set (?t ! ?h)" "bits = fBits (store st ! n)"
      by (auto simp: find_Some_iff)
    from n(1) h have "n \<in> set (concat ?t)" unfolding in_concat_nth by blast
    with cover have "n < length (store st)" by simp
    with F Some n(2) show ?thesis by simp
  qed
qed

lemma nth_update_total:
  "(xs[i := x]) ! j = (if i = j \<and> i < length xs then x else xs ! j)"
  by (cases "i < length xs") (auto simp: nth_list_update list_update_beyond)

lemma UsedAtDepth_frame:
  "fHashTable (UsedAtDepth a d st) = fHashTable st"
  "length (store (UsedAtDepth a d st)) = length (store st)"
  "fBits (store (UsedAtDepth a d st) ! b) = fBits (store st ! b)"
  "fChild (store (UsedAtDepth a d st) ! b) = fChild (store st ! b)"
  by (simp_all add: UsedAtDepth_def nth_update_total)

lemma AddChild_frame:
  "fHashTable (AddChild p c t st) = fHashTable st"
  "length (store (AddChild p c t st)) = length (store st)"
  "fBits (store (AddChild p c t st) ! b) = fBits (store st ! b)"
  "p < length (store st) \<Longrightarrow>
     fChild (store (AddChild p c t st) ! b)
       = (if b = p then (c, t) # fChild (store st ! b) else fChild (store st ! b))"
  by (simp_all add: AddChild_def nth_update_total)

lemma build_inv_same:
  assumes "build_inv H g st"
    and "fHashTable st' = fHashTable st" "length (store st') = length (store st)"
    and "\<And>b. fBits (store st' ! b) = fBits (store st ! b)"
    and "\<And>b. fChild (store st' ! b) = fChild (store st ! b)"
  shows "build_inv H g st'"
  using assms(1)
  unfolding build_inv_def table_inv_def store_inv_def links_inv_def assms(2) assms(3)
    assms(4) assms(5) .

lemma UsedAtDepth_inv:
  "build_inv H g st \<Longrightarrow> build_inv H g (UsedAtDepth a d st)"
  by (erule build_inv_same) (simp_all add: UsedAtDepth_frame)

lemma UsedAtDepth_grows: "grows st (UsedAtDepth a d st)"
  by (simp add: grows_def UsedAtDepth_frame)

lemma AddChild_grows: "grows st (AddChild p c t st)"
  by (simp add: grows_def AddChild_frame)

lemma AddChild_inv:
  assumes inv: "build_inv H g st" and p: "p < length (store st)" and c: "c < length (store st)"
    and t: "t = 0 \<or> t = 1 \<or> t = 2" and m: "t = 2 \<longrightarrow> p = 0"
  shows "build_inv H g (AddChild p c t st)"
proof -
  have "links_inv (AddChild p c t st)"
    using inv p c t m unfolding build_inv_def links_inv_def
    by (auto simp: AddChild_frame)
  moreover have "table_inv H (AddChild p c t st)" "store_inv g (AddChild p c t st)"
    using inv unfolding build_inv_def table_inv_def store_inv_def
    by (simp_all add: AddChild_frame)
  ultimately show ?thesis by (simp add: build_inv_def)
qed

lemma planes_positive: "store_inv g st \<Longrightarrow> 0 < fNplanes g"
  unfolding store_inv_def bits_ok_def by blast

lemma insert_new_pattern:
  assumes inv: "build_inv H g st"
    and none: "\<forall>a<length (store st). fBits (store st ! a) \<noteq> bits"
    and ok: "bits_ok (fNplanes g) bits"
    and lc: "LineCheck g bits = Inr True"
    and new: "new_Pattern m0 bits st = (node, st1)"
  shows "build_inv H g (AddHash H g node st1) \<and> grows st (AddHash H g node st1) \<and>
         node = length (store st) \<and> length (store (AddHash H g node st1)) = Suc node"
proof -
  let ?n = "length (store st)" and ?t = "fHashTable st"
  let ?h = "H bits mod length ?t"
  let ?st' = "AddHash H g (length (store st)) st1"
  let ?t' = "?t[?h := length (store st) # ?t ! ?h]"
  from new have node: "node = ?n"
    and st1: "st1 = st\<lparr>store := store st @ [\<lparr>fBits = bits, fChild = [], fMinDepth = m0\<rparr>]\<rparr>"
    by (auto simp: new_Pattern_def)
  from inv have tinv: "table_inv H st" and sinv: "store_inv g st" and linv: "links_inv st"
    by (simp_all add: build_inv_def)
  from tinv have ne: "?t \<noteq> []" and cover: "set (concat ?t) = {..<?n}"
    and dist: "distinct (map (\<lambda>a. fBits (store st ! a)) (concat ?t))"
    and place: "\<forall>i<length ?t. \<forall>a\<in>set (?t ! i). H (fBits (store st ! a)) mod length ?t = i"
    unfolding table_inv_def by blast+
  from ne have h: "?h < length ?t" by simp
  have cov: "a \<in> set (concat ?t) \<longleftrightarrow> a < ?n" for a
    using cover by (simp only: lessThan_iff)
  have table': "fHashTable ?st' = ?t'"
    using ne by (simp add: AddHash_def st1 Let_def)
  have store': "store ?st' = store st @ [\<lparr>fBits = bits, fChild = [], fMinDepth = m0\<rparr>]"
    by (simp add: AddHash_def st1 Let_def)
  have len': "length (store ?st') = Suc ?n" by (simp add: store')
  have old: "store ?st' ! a = store st ! a" if "a < ?n" for a
    using that by (simp add: store' nth_append)
  have newp: "store ?st' ! ?n = \<lparr>fBits = bits, fChild = [], fMinDepth = m0\<rparr>"
    by (simp add: store')
  have same: "map (\<lambda>a. fBits (store ?st' ! a)) (concat ?t) = map (\<lambda>a. fBits (store st ! a)) (concat ?t)"
  proof (rule map_cong [OF refl])
    fix a assume "a \<in> set (concat ?t)"
    then have "a < ?n" by (simp only: cov)
    then show "fBits (store ?st' ! a) = fBits (store st ! a)" by (simp add: old)
  qed
  have fresh: "fBits (store ?st' ! ?n) \<notin> (\<lambda>a. fBits (store ?st' ! a)) ` set (concat ?t)"
  proof
    assume "fBits (store ?st' ! ?n) \<in> (\<lambda>a. fBits (store ?st' ! a)) ` set (concat ?t)"
    then obtain a where a: "a \<in> set (concat ?t)" "fBits (store ?st' ! ?n) = fBits (store ?st' ! a)"
      by blast
    from a(1) have "a < ?n" by (simp only: cov)
    with a(2) none show False by (auto simp: old newp)
  qed
  have t1: "fHashTable ?st' \<noteq> []" using ne by (simp add: table')
  have t2: "set (concat (fHashTable ?st')) = {..<length (store ?st')}"
    unfolding table' set_concat_push [OF h] len' cover lessThan_Suc ..
  have t3: "distinct (map (\<lambda>a. fBits (store ?st' ! a)) (concat (fHashTable ?st')))"
    unfolding table' distinct_concat_push [OF h] using fresh dist by (simp only: same) simp
  have t4: "H (fBits (store ?st' ! a)) mod length (fHashTable ?st') = i"
    if i: "i < length (fHashTable ?st')" and a: "a \<in> set (fHashTable ?st' ! i)" for i a
  proof (cases "a = ?n")
    case True
    have "?n \<notin> set (concat ?t)" unfolding cov by simp
    with i a True have "i = ?h"
      unfolding table' in_concat_nth by (cases "i = ?h") auto
    with True show ?thesis by (simp add: table' newp)
  next
    case False
    with i a have a': "a \<in> set (?t ! i)" and i': "i < length ?t"
      unfolding table' by (cases "i = ?h"; simp)+
    then have "a \<in> set (concat ?t)" unfolding in_concat_nth by blast
    then have "a < ?n" by (simp only: cov)
    with place i' a' show ?thesis by (simp add: table' old)
  qed
  have T: "table_inv H ?st'"
    unfolding table_inv_def using t1 t2 t3 t4 by blast
  have S: "store_inv g ?st'"
    using sinv ok lc unfolding store_inv_def len'
    by (auto simp: less_Suc_eq old newp)
  have L: "links_inv ?st'"
    using linv unfolding links_inv_def len'
    by (auto simp: less_Suc_eq old newp)
  have G: "grows st ?st'" by (simp add: grows_def len' old)
  from T S L G len' show ?thesis unfolding node by (simp add: build_inv_def)
qed

lemma try_child_inv:
  assumes inv: "build_inv H g st" and p: "parent < length (store st)"
    and c: "child_ok (fBits (store st ! parent)) child type"
  shows "\<exists>st'. try_child H m0 g parent depth child type st = Inr st' \<and>
           build_inv H g st' \<and> grows st st'"
proof -
  from inv have tinv: "table_inv H st" and sinv: "store_inv g st"
    by (simp_all add: build_inv_def)
  from sinv p have pb: "bits_ok (fNplanes g) (fBits (store st ! parent))"
    and root: "fBits (store st ! 0) = replicate (fNplanes g) 0" and ne: "0 < length (store st)"
    by (simp_all add: store_inv_def)
  from pb have lp: "length (fBits (store st ! parent)) = fNplanes g" by (simp add: bits_ok_def)
  from c lp have cb: "bits_ok (fNplanes g) child" and ty: "type = 0 \<or> type = 1 \<or> type = 2"
    and mir: "type = 2 \<longrightarrow> fBits (store st ! parent) = replicate (fNplanes g) 0"
    by (simp_all add: child_ok_def)
  have m: "type = 2 \<longrightarrow> parent = 0"
    using mir root same_bins_same_pattern [OF tinv p ne] by simp
  from Find_result [OF tinv, of bits] Find_result [OF tinv, of child]
  consider (absent) "Find H child st = Inr None" "\<forall>a<length (store st). fBits (store st ! a) \<noteq> child"
    | (found) n where "Find H child st = Inr (Some n)" "n < length (store st)"
    by blast
  then show ?thesis
  proof cases
    case found
    from AddChild_inv [OF inv p found(2) ty m] AddChild_grows [of st parent n type]
    show ?thesis using found(1) inv by (simp add: try_child_def grows_refl)
  next
    case absent
    from planes_positive [OF sinv] obtain ok where lc: "LineCheck g child = Inr ok"
      by (simp add: LineCheck_def Let_def)
    show ?thesis
    proof (cases "TestSlope g child depth \<and> ok")
      case False
      then show ?thesis using absent(1) lc inv by (auto simp: try_child_def grows_refl)
    next
      case True
      obtain node st1 where new: "new_Pattern m0 child st = (node, st1)"
        by (cases "new_Pattern m0 child st")
      from True lc have lct: "LineCheck g child = Inr True" by simp
      from insert_new_pattern [OF inv absent(2) cb lct new]
      have i1: "build_inv H g (AddHash H g node st1)" and g1: "grows st (AddHash H g node st1)"
        and n: "node = length (store st)"
        and l1: "length (store (AddHash H g node st1)) = Suc node"
        by blast+
      have p1: "parent < length (store (AddHash H g node st1))" using p n l1 by simp
      have n1: "node < length (store (AddHash H g node st1))" using l1 by simp
      from AddChild_inv [OF i1 p1 n1 ty m]
        grows_trans [OF g1 AddChild_grows [of "AddHash H g node st1" parent node type]]
      show ?thesis using absent(1) lc True new by (simp add: try_child_def)
    qed
  qed
qed

lemma make_children_inv:
  "build_inv H g st \<Longrightarrow> parent < length (store st) \<Longrightarrow> iter_ok (fBits (store st ! parent)) it \<Longrightarrow>
   \<exists>st'. make_children H m0 g parent depth it st = Inr st' \<and> build_inv H g st' \<and> grows st st'"
proof (induction H m0 g parent depth it st rule: make_children.induct)
  case (1 H m0 g parent depth it st)
  show ?case
  proof (cases "0 \<le> fCount it")
    case False
    then show ?thesis
      using "1.prems"(1) by (subst make_children.simps) (simp add: grows_refl)
  next
    case True
    with "1.prems"(3) have c: "child_ok (fBits (store st ! parent)) (fChildPat it) (fType it)"
      by (simp add: iter_ok_def)
    from try_child_inv [OF "1.prems"(1,2) c, of m0 depth] obtain st1 where
      t: "try_child H m0 g parent depth (fChildPat it) (fType it) st = Inr st1"
      and i1: "build_inv H g st1" and g1: "grows st st1"
      by blast
    from g1 "1.prems"(2) have p1: "parent < length (store st1)"
      and b1: "fBits (store st1 ! parent) = fBits (store st ! parent)"
      by (simp_all add: grows_def)
    from "1.prems"(1,2) have "bits_ok (fNplanes g) (fBits (store st ! parent))"
      by (simp add: build_inv_def store_inv_def)
    from ChildIter_inc_ok [OF this "1.prems"(3)]
    have it1: "iter_ok (fBits (store st1 ! parent)) (ChildIter_inc it)" by (simp add: b1)
    from "1.IH" [OF True t i1 p1 it1] obtain st' where
      r: "make_children H m0 g parent depth (ChildIter_inc it) st1 = Inr st'"
      and i': "build_inv H g st'" and g': "grows st1 st'"
      by blast
    have "make_children H m0 g parent depth it st = Inr st'"
      using True t r by (subst make_children.simps) simp
    with i' grows_trans [OF g1 g'] show ?thesis by blast
  qed
qed

lemma walk_children_inv:
  assumes rec: "\<And>node s. build_inv H g s \<Longrightarrow> node < length (store s) \<Longrightarrow>
                  \<exists>s'. recurse node s = Inr s' \<and> build_inv H g s' \<and> grows s s'"
  shows "build_inv H g st \<Longrightarrow> \<forall>lnk\<in>set lnks. fst lnk < length (store st) \<Longrightarrow>
         \<exists>st'. walk_children recurse depth lnks st = Inr st' \<and> build_inv H g st' \<and> grows st st'"
proof (induction lnks arbitrary: st)
  case Nil
  then show ?case by (simp add: grows_refl)
next
  case (Cons lnk lnks)
  show ?case
  proof (cases "fChild (store st ! fst lnk) = [] \<or> fMinDepth (store st ! fst lnk) > depth")
    case False
    from Cons.IH [OF Cons.prems(1)] Cons.prems(2) False show ?thesis by simp
  next
    case True
    from Cons.prems(2) have "fst lnk < length (store st)" by simp
    from rec [OF Cons.prems(1) this] obtain s1 where
      r: "recurse (fst lnk) st = Inr s1" and i1: "build_inv H g s1" and g1: "grows st s1"
      by blast
    from g1 Cons.prems(2) have "\<forall>l\<in>set lnks. fst l < length (store s1)"
      by (auto simp: grows_def)
    from Cons.IH [OF i1 this] obtain st' where
      w: "walk_children recurse depth lnks s1 = Inr st'" and i': "build_inv H g st'"
      and g': "grows s1 st'"
      by blast
    from True r w have "walk_children recurse depth (lnk # lnks) st = Inr st'" by simp
    with i' grows_trans [OF g1 g'] show ?thesis by blast
  qed
qed

lemma MakeChildNodes_inv:
  "build_inv H g st \<Longrightarrow> parent < length (store st) \<Longrightarrow>
   \<exists>st'. MakeChildNodes H m0 g parent depth st = Inr st' \<and> build_inv H g st' \<and> grows st st'"
proof (induction H m0 g parent depth st rule: MakeChildNodes.induct)
  case (1 H m0 g parent depth st)
  let ?st1 = "if 0 < depth then UsedAtDepth parent (depth - 1) st else st"
  have i1: "build_inv H g ?st1" using "1.prems"(1) by (simp add: UsedAtDepth_inv)
  have g1: "grows st ?st1" by (simp add: UsedAtDepth_grows grows_refl)
  from g1 "1.prems"(2) have p1: "parent < length (store ?st1)" by (simp add: grows_def)
  show ?case
  proof (cases "fNlevels g \<le> depth")
    case True
    have "MakeChildNodes H m0 g parent depth st = Inr ?st1"
      using True by (subst MakeChildNodes.simps) (simp add: Let_def)
    with i1 g1 show ?thesis by blast
  next
    case False
    let ?e = "if fChild (store ?st1 ! parent) = []
              then make_children H m0 g parent depth
                     (ChildIter_ctor (fBits (store ?st1 ! parent))) ?st1
              else Inr ?st1"
    have "\<exists>st2. ?e = Inr st2 \<and> build_inv H g st2 \<and> grows ?st1 st2"
    proof (cases "fChild (store ?st1 ! parent) = []")
      case False
      with i1 show ?thesis by (simp add: grows_refl)
    next
      case True
      from i1 p1 have "bits_ok (fNplanes g) (fBits (store ?st1 ! parent))"
        by (simp add: build_inv_def store_inv_def)
      from make_children_inv [OF i1 p1 ChildIter_ctor_ok [OF this], of m0 depth] True
      show ?thesis by simp
    qed
    then obtain st2 where e: "?e = Inr st2" and i2: "build_inv H g st2" and g2: "grows ?st1 st2"
      by blast
    from g2 p1 have p2: "parent < length (store st2)" by (simp add: grows_def)
    with i2 have links: "\<forall>lnk\<in>set (fChild (store st2 ! parent)). fst lnk < length (store st2)"
      by (simp add: build_inv_def links_inv_def)
    have rec: "\<exists>s'. MakeChildNodes H m0 g node (depth + 1) s = Inr s' \<and> build_inv H g s' \<and> grows s s'"
      if "build_inv H g s" "node < length (store s)" for node s
      using "1.IH" [OF refl False e that] .
    from walk_children_inv [of H g "\<lambda>node s. MakeChildNodes H m0 g node (depth + 1) s",
        OF rec i2 links, of depth]
    obtain st' where
      w: "walk_children (\<lambda>node s. MakeChildNodes H m0 g node (depth + 1) s) depth
            (fChild (store st2 ! parent)) st2 = Inr st'"
      and i': "build_inv H g st'" and g': "grows st2 st'"
      by blast
    have "MakeChildNodes H m0 g parent depth st = Inr st'"
      using False e w by (subst MakeChildNodes.simps) (simp add: Let_def)
    with i' grows_trans [OF g1 grows_trans [OF g2 g']] show ?thesis by blast
  qed
qed

section \<open>The states of a build\<close>

text \<open>The state that a function of the build returns is the last of its states.\<close>

lemma last_states_append: "last (s # xs @ ys) = last (last (s # xs) # ys)"
  by simp

lemma try_child_states_last:
  "try_child H m0 g parent depth child type st =
     (case try_child_states H m0 g parent depth child type st of
        Inl e \<Rightarrow> Inl e | Inr sts \<Rightarrow> Inr (last (st # sts)))"
  by (simp add: try_child_def try_child_states_def
      split: sum.splits option.splits prod.splits)

lemma make_children_states_last:
  "make_children H m0 g parent depth it st =
     (case make_children_states H m0 g parent depth it st of
        Inl e \<Rightarrow> Inl e | Inr sts \<Rightarrow> Inr (last (st # sts)))"
proof (induction H m0 g parent depth it st rule: make_children_states.induct)
  case (1 H m0 g parent depth it st)
  show ?case
  proof (cases "0 \<le> fCount it")
    case False
    then show ?thesis
      by (subst make_children.simps, subst make_children_states.simps) simp
  next
    case True
    show ?thesis
    proof (cases "try_child_states H m0 g parent depth (fChildPat it) (fType it) st")
      case (Inl e)
      with True show ?thesis
        by (subst make_children.simps, subst make_children_states.simps)
          (simp add: try_child_states_last)
    next
      case (Inr sts)
      from "1.IH" [OF True Inr] True Inr show ?thesis
        by (subst make_children.simps, subst make_children_states.simps)
          (simp del: last.simps add: try_child_states_last last_states_append
             split: sum.splits)
    qed
  qed
qed

lemma walk_children_states_last:
  assumes "\<And>node s. recurse node s =
             (case recurse_states node s of Inl e \<Rightarrow> Inl e | Inr sts \<Rightarrow> Inr (last (s # sts)))"
  shows "walk_children recurse depth lnks st =
           (case walk_children_states recurse_states depth lnks st of
              Inl e \<Rightarrow> Inl e | Inr sts \<Rightarrow> Inr (last (st # sts)))"
proof (induction lnks arbitrary: st)
  case Nil
  show ?case by simp
next
  case (Cons lnk lnks)
  show ?case
  proof (cases "fChild (store st ! fst lnk) = [] \<or> fMinDepth (store st ! fst lnk) > depth")
    case False
    with Cons.IH [of st] show ?thesis by simp
  next
    case True
    show ?thesis
    proof (cases "recurse_states (fst lnk) st")
      case (Inl e)
      with True assms [of "fst lnk" st] show ?thesis by simp
    next
      case (Inr sts)
      with assms [of "fst lnk" st] have r: "recurse (fst lnk) st = Inr (last (st # sts))"
        by simp
      from True r Inr Cons.IH [of "last (st # sts)"] show ?thesis
        by (simp del: last.simps add: last_states_append split: sum.splits)
    qed
  qed
qed

lemma MakeChildNodes_step:
  assumes "\<not> fNlevels g \<le> depth"
  shows "MakeChildNodes H m0 g parent depth st =
     (case (if fChild (store (if 0 < depth then UsedAtDepth parent (depth - 1) st else st)
                        ! parent) = []
            then make_children H m0 g parent depth
                   (ChildIter_ctor
                      (fBits (store (if 0 < depth then UsedAtDepth parent (depth - 1) st else st)
                                ! parent)))
                   (if 0 < depth then UsedAtDepth parent (depth - 1) st else st)
            else Inr (if 0 < depth then UsedAtDepth parent (depth - 1) st else st)) of
        Inl e \<Rightarrow> Inl e
      | Inr st2 \<Rightarrow>
          walk_children (\<lambda>node s. MakeChildNodes H m0 g node (depth + 1) s) depth
            (fChild (store st2 ! parent)) st2)"
  using assms by (subst MakeChildNodes.simps) (simp add: Let_def)

lemma MakeChildNodes_states_step:
  assumes "\<not> fNlevels g \<le> depth"
  shows "MakeChildNodes_states H m0 g parent depth st =
     (case (if fChild (store (last (st # (if 0 < depth then [UsedAtDepth parent (depth - 1) st]
                                          else []))) ! parent) = []
            then make_children_states H m0 g parent depth
                   (ChildIter_ctor
                      (fBits (store (last (st # (if 0 < depth
                                                  then [UsedAtDepth parent (depth - 1) st]
                                                  else []))) ! parent)))
                   (last (st # (if 0 < depth then [UsedAtDepth parent (depth - 1) st] else [])))
            else Inr []) of
        Inl e \<Rightarrow> Inl e
      | Inr sts2 \<Rightarrow>
          (case walk_children_states
                  (\<lambda>node s. MakeChildNodes_states H m0 g node (depth + 1) s) depth
                  (fChild (store (last (last (st # (if 0 < depth
                                                     then [UsedAtDepth parent (depth - 1) st]
                                                     else [])) # sts2)) ! parent))
                  (last (last (st # (if 0 < depth then [UsedAtDepth parent (depth - 1) st]
                                     else [])) # sts2)) of
             Inl e \<Rightarrow> Inl e
           | Inr sts3 \<Rightarrow>
               Inr ((if 0 < depth then [UsedAtDepth parent (depth - 1) st] else [])
                      @ sts2 @ sts3)))"
  using assms by (subst MakeChildNodes_states.simps) (simp only: Let_def if_False)

lemma MakeChildNodes_states_last:
  "MakeChildNodes H m0 g parent depth st =
     (case MakeChildNodes_states H m0 g parent depth st of
        Inl e \<Rightarrow> Inl e | Inr sts \<Rightarrow> Inr (last (st # sts)))"
proof (induction "fNlevels g - depth" arbitrary: parent depth st)
  case 0
  then show ?case
    by (subst MakeChildNodes.simps, subst MakeChildNodes_states.simps) (simp add: Let_def)
next
  case (Suc n)
  from Suc.hyps(2) have lvl: "\<not> fNlevels g \<le> depth" by simp
  define sts1 where "sts1 = (if 0 < depth then [UsedAtDepth parent (depth - 1) st] else [])"
  define st1 where "st1 = last (st # sts1)"
  have st1_eq: "st1 = (if 0 < depth then UsedAtDepth parent (depth - 1) st else st)"
    by (simp add: st1_def sts1_def)
  define Es where "Es = (if fChild (store st1 ! parent) = []
      then make_children_states H m0 g parent depth (ChildIter_ctor (fBits (store st1 ! parent))) st1
      else Inr [])"
  have l1: "last (st # sts1 @ xs) = last (st1 # xs)" for xs
    by (simp add: st1_eq sts1_def)
  have rec: "MakeChildNodes H m0 g node (depth + 1) s =
               (case MakeChildNodes_states H m0 g node (depth + 1) s of
                  Inl e \<Rightarrow> Inl e | Inr sts \<Rightarrow> Inr (last (s # sts)))" for node s
    using Suc.hyps(2) by (intro Suc.hyps(1)) simp
  note walk = walk_children_states_last
    [of "\<lambda>node s. MakeChildNodes H m0 g node (depth + 1) s"
        "\<lambda>node s. MakeChildNodes_states H m0 g node (depth + 1) s", OF rec]
  have M: "MakeChildNodes H m0 g parent depth st =
     (case Es of
        Inl e \<Rightarrow> Inl e
      | Inr sts2 \<Rightarrow>
          walk_children (\<lambda>node s. MakeChildNodes H m0 g node (depth + 1) s) depth
            (fChild (store (last (st1 # sts2)) ! parent)) (last (st1 # sts2)))"
    unfolding MakeChildNodes_step [OF lvl] st1_eq [symmetric] Es_def
    by (simp add: make_children_states_last split: sum.splits)
  have Ms: "MakeChildNodes_states H m0 g parent depth st =
     (case Es of
        Inl e \<Rightarrow> Inl e
      | Inr sts2 \<Rightarrow>
          (case walk_children_states
                  (\<lambda>node s. MakeChildNodes_states H m0 g node (depth + 1) s) depth
                  (fChild (store (last (st1 # sts2)) ! parent)) (last (st1 # sts2)) of
             Inl e \<Rightarrow> Inl e
           | Inr sts3 \<Rightarrow> Inr (sts1 @ sts2 @ sts3)))"
    unfolding MakeChildNodes_states_step [OF lvl] sts1_def [symmetric] st1_def [symmetric] Es_def ..
  show ?case
  proof (cases Es)
    case (Inl e)
    then show ?thesis unfolding M Ms by simp
  next
    case (Inr sts2)
    define st2 where "st2 = last (st1 # sts2)"
    have fin: "last (st # sts1 @ sts2 @ sts3) = last (st2 # sts3)" for sts3
    proof -
      have "last (st # sts1 @ sts2 @ sts3) = last (st1 # sts2 @ sts3)" by (rule l1)
      also have "\<dots> = last (last (st1 # sts2) # sts3)" by (rule last_states_append)
      finally show ?thesis unfolding st2_def .
    qed
    show ?thesis
      unfolding M Ms Inr sum.case st2_def [symmetric] walk
      by (cases "walk_children_states
                   (\<lambda>node s. MakeChildNodes_states H m0 g node (depth + 1) s) depth
                   (fChild (store st2 ! parent)) st2")
        (simp_all add: fin del: last.simps)
  qed
qed

lemma Generate_states_last:
  "map_sum id snd (Generate H m0 p this) =
     (case Generate_states H m0 p this of Inl e \<Rightarrow> Inl e | Inr sts \<Rightarrow> Inr (last sts))"
  by (simp add: Generate_def Generate_states_def Let_def MakeChildNodes_states_last
      split: sum.splits prod.splits)








section \<open>Properties of Generate\<close>

lemma Normalize_valid:
  assumes "valid_parameters p"
  shows "\<exists>q. Normalize p = Inr q \<and> length (zpos q) = length (zpos p) \<and>
           maxdepth q = maxdepth p \<and> maxslope q = maxslope p"
  using assms by (simp add: Normalize_def)

lemma Normalize_invalid: "\<not> valid_parameters p \<Longrightarrow> Normalize p = Inl InvalidParameters"
  by (simp add: Normalize_def)

lemma initial_build_inv:
  assumes "0 < fNplanes g"
    and "new_Pattern m0 (replicate (fNplanes g) 0) PatternGenerator_ctor = (rootpat, st0)"
  shows "build_inv H g (AddHash H g rootpat st0) \<and> rootpat = 0 \<and>
         length (store (AddHash H g rootpat st0)) = 1"
proof -
  let ?z = "replicate (fNplanes g) (0 :: int)"
  let ?T = "replicate (2 ^ (fNlevels g - 1)) ([] :: nat list)"
  let ?h = "H ?z mod length ?T"
  let ?st = "AddHash H g 0 st0"
  from assms(2) have r: "rootpat = 0"
    and st0: "st0 = \<lparr>fHashTable = [], store = [\<lparr>fBits = ?z, fChild = [], fMinDepth = m0\<rparr>]\<rparr>"
    by (auto simp: new_Pattern_def PatternGenerator_ctor_def)
  have h: "?h < length ?T" by simp
  have table: "fHashTable ?st = ?T[?h := 0 # ?T ! ?h]"
    by (simp add: AddHash_def st0 Let_def)
  have store: "store ?st = [\<lparr>fBits = ?z, fChild = [], fMinDepth = m0\<rparr>]"
    by (simp add: AddHash_def st0 Let_def)
  have e: "concat ?T = []" by simp
  have t1: "fHashTable ?st \<noteq> []" by (simp add: table)
  have t2: "set (concat (fHashTable ?st)) = {..<length (store ?st)}"
    unfolding table set_concat_push [OF h] e store by auto
  have t3: "distinct (map (\<lambda>a. fBits (store ?st ! a)) (concat (fHashTable ?st)))"
    unfolding table distinct_concat_push [OF h] e by simp
  have t4: "H (fBits (store ?st ! a)) mod length (fHashTable ?st) = i"
    if i: "i < length (fHashTable ?st)" and a: "a \<in> set (fHashTable ?st ! i)" for i a
  proof -
    from i a have "i = ?h \<and> a = 0"
      unfolding table by (cases "i = ?h") (auto simp: nth_update_total)
    then show ?thesis by (simp add: table store)
  qed
  have T: "table_inv H ?st" unfolding table_inv_def using t1 t2 t3 t4 by blast
  have S: "store_inv g ?st"
    using assms(1) by (simp add: store_inv_def store bits_ok_def)
  have L: "links_inv ?st" by (simp add: links_inv_def store)
  from T S L store show ?thesis unfolding r by (simp add: build_inv_def)
qed

lemma Generate_inv:
  assumes v: "valid_parameters p"
  shows "\<exists>q g st. Normalize p = Inr q \<and> g = generator_of q \<and>
           Generate H m0 p PatternGenerator_ctor = Inr (g, st) \<and> build_inv H g st"
proof -
  from Normalize_valid [OF v] obtain q where
    n: "Normalize p = Inr q" and l: "length (zpos q) = length (zpos p)"
    by blast
  let ?g = "generator_of q"
  from v l have pos: "0 < fNplanes ?g"
    by (auto simp: valid_parameters_def generator_of_def)
  obtain rootpat st0 where
    new: "new_Pattern m0 (replicate (fNplanes ?g) 0) PatternGenerator_ctor = (rootpat, st0)"
    by (cases "new_Pattern m0 (replicate (fNplanes ?g) 0) PatternGenerator_ctor")
  from initial_build_inv [OF pos new, of H] have
    i0: "build_inv H ?g (AddHash H ?g rootpat st0)"
    and p0: "rootpat < length (store (AddHash H ?g rootpat st0))"
    by auto
  from MakeChildNodes_inv [OF i0 p0, of m0 1] obtain st where
    m: "MakeChildNodes H m0 ?g rootpat 1 (AddHash H ?g rootpat st0) = Inr st"
    and i: "build_inv H ?g st"
    by blast
  have "Generate H m0 p PatternGenerator_ctor = Inr (?g, st)"
    using n new m by (simp add: Generate_def Let_def)
  with n i show ?thesis by blast
qed

lemmas generator_eval =
  Generate_def PatternGenerator_ctor_def Normalize_def valid_parameters_def generator_of_def
  new_Pattern_def AddHash_def
  MakeChildNodes.simps make_children.simps try_child_def Find_def TestSlope_def LineCheck_def
  GetWidth_def UsedAtDepth_def AddChild_def ChildIter_ctor_def ChildIter_inc_def
  ChildIter_loop.simps nPatterns_def nLinks_def Let_def

text \<open>
  Claim C4 (scenario S1) as stated fails in its last part. With two planes at z = 0, 1,
  \<^verbatim>\<open>max_depth = 1\<close> and \<^verbatim>\<open>max_slope = 1\<close> the build on a new generator ends with two
  patterns, [0,0] and [0,1], but the child list of the root holds four links, not one: \<^verbatim>\<open>MakeChildNodes\<close>
  adds a link for each of the four candidates of \<^verbatim>\<open>ChildIter\<close>, two of them to the root
  itself (types 1 and 0) and two to [0,1] (types 0 and 2). Here the hash of a pattern
  is the sum of its bins and a new pattern has \<^verbatim>\<open>fMinDepth = 16\<close>.
\<close>

theorem Generate_trivial_tree_counterexample:
  "Generate (\<lambda>bits. nat (sum_list bits)) 16
      \<lparr>maxdepth = 1, width = 1, zpos = [0, 1], maxslope = 1\<rparr> PatternGenerator_ctor
   = Inr (\<lparr>fNlevels = 2, fNplanes = 2, fMaxSlope = 1, fZ = [0, 1]\<rparr>,
          \<lparr>fHashTable = [[0], [1]],
            store = [\<lparr>fBits = [0, 0], fChild = [(0, 0), (1, 2), (1, 0), (0, 1)], fMinDepth = 0\<rparr>,
                     \<lparr>fBits = [0, 1], fChild = [], fMinDepth = 1\<rparr>]\<rparr>)"
  by (simp add: generator_eval numeral_2_eq_2)

text \<open>
  Claim C4, amended: whatever the hash function, the initial \<^verbatim>\<open>fMinDepth\<close> and the
  detector width are, \<^verbatim>\<open>Generate\<close>, called on a new generator with the parameters of S1,
  ends with exactly two patterns in the hash table, the root [0,0] and the child [0,1]
  (the mirrored candidate is not stored again), and four child links; the child list of
  the root holds the four links (root, 0), ([0,1], 2), ([0,1], 0) and (root, 1), the last
  one added first; [0,1] has no links.
\<close>

theorem Generate_trivial_tree:
  "\<exists>g st. Generate H m0 \<lparr>maxdepth = 1, width = w, zpos = [0, 1], maxslope = 1\<rparr>
        PatternGenerator_ctor = Inr (g, st) \<and>
      nPatterns st = 2 \<and> nLinks st = 4 \<and>
      set (map (\<lambda>pat. fBits (store st ! pat)) (concat (fHashTable st))) = {[0, 0], [0, 1]} \<and>
      store st = [\<lparr>fBits = [0, 0], fChild = [(0, 0), (1, 2), (1, 0), (0, 1)], fMinDepth = 0\<rparr>,
                  \<lparr>fBits = [0, 1], fChild = [], fMinDepth = min 1 m0\<rparr>]"
proof -
  consider (a) "H [0, 0] mod 2 = 0" "H [0, 1] mod 2 = 0"
    | (b) "H [0, 0] mod 2 = 0" "H [0, 1] mod 2 = Suc 0"
    | (c) "H [0, 0] mod 2 = Suc 0" "H [0, 1] mod 2 = 0"
    | (d) "H [0, 0] mod 2 = Suc 0" "H [0, 1] mod 2 = Suc 0"
    by (cases "H [0, 0] mod 2 = 0"; cases "H [0, 1] mod 2 = 0") auto
  then show ?thesis
  proof cases
    case a
    then show ?thesis by (simp add: generator_eval numeral_2_eq_2 insert_commute)
  next
    case b
    then show ?thesis by (simp add: generator_eval numeral_2_eq_2 insert_commute)
  next
    case c
    then show ?thesis by (simp add: generator_eval numeral_2_eq_2 insert_commute)
  next
    case d
    then show ?thesis by (simp add: generator_eval numeral_2_eq_2 insert_commute)
  qed
qed

lemma Generate_build_inv:
  assumes "Generate H m0 p PatternGenerator_ctor = Inr (g, st)"
  shows "valid_parameters p \<and> Normalize p = Inr (p\<lparr>width := 1,
            zpos := map (\<lambda>z. (z - hd (zpos p)) / (last (zpos p) - hd (zpos p))) (zpos p)\<rparr>) \<and>
         g = generator_of (p\<lparr>width := 1,
            zpos := map (\<lambda>z. (z - hd (zpos p)) / (last (zpos p) - hd (zpos p))) (zpos p)\<rparr>) \<and>
         build_inv H g st"
proof -
  have v: "valid_parameters p"
  proof (rule ccontr)
    assume "\<not> valid_parameters p"
    then have "Generate H m0 p PatternGenerator_ctor = Inl InvalidParameters"
      by (simp add: Generate_def Normalize_invalid)
    with assms show False by simp
  qed
  from Generate_inv [OF v, of H m0] assms v show ?thesis
    by (auto simp: Normalize_def)
qed

lemma table_patterns_in_store:
  "build_inv H g st \<Longrightarrow> pat \<in> set (concat (fHashTable st)) \<Longrightarrow> pat < length (store st)"
  unfolding build_inv_def table_inv_def by (metis lessThan_iff)




text \<open>
  Claim C6 (mirror rarity). For valid parameters \<^verbatim>\<open>Generate\<close>, called on a newly
  constructed generator, returns, and in the tree it leaves
  no child link has type 3, and a link whose type has bit 1 set (\<^verbatim>\<open>type & 2\<close>) is
  in the child list of the root (the first pattern of the store), whose bins are all 0.
\<close>

theorem mirror_links_only_at_root:
  assumes "valid_parameters p"
  shows "\<exists>g st. Generate H m0 p PatternGenerator_ctor = Inr (g, st) \<and>
           (\<forall>pat\<in>set (concat (fHashTable st)). \<forall>lnk\<in>set (fChild (store st ! pat)).
              snd lnk \<noteq> 3 \<and>
              (snd lnk AND 2 \<noteq> 0 \<longrightarrow>
                 pat = 0 \<and> fBits (store st ! pat) = replicate (fNplanes g) 0))"
proof -
  from Generate_inv [OF assms, of H m0] obtain g st where
    G: "Generate H m0 p PatternGenerator_ctor = Inr (g, st)" and inv: "build_inv H g st"
    by blast
  from inv have s: "store_inv g st" and l: "links_inv st" by (simp_all add: build_inv_def)
  have "snd lnk \<noteq> 3 \<and>
        (snd lnk AND 2 \<noteq> 0 \<longrightarrow> pat = 0 \<and> fBits (store st ! pat) = replicate (fNplanes g) 0)"
    if pat: "pat \<in> set (concat (fHashTable st))" and lnk: "lnk \<in> set (fChild (store st ! pat))"
    for pat lnk
  proof -
    from pat inv have "pat < length (store st)" by (rule table_patterns_in_store [rotated])
    with l lnk have ty: "snd lnk = 0 \<or> snd lnk = 1 \<or> snd lnk = 2" and m: "snd lnk = 2 \<longrightarrow> pat = 0"
      unfolding links_inv_def by blast+
    from s have root: "fBits (store st ! 0) = replicate (fNplanes g) 0"
      by (simp add: store_inv_def)
    from ty m root show ?thesis by auto
  qed
  with G show ?thesis by blast
qed

theorem mirror_links_only_at_root_witness:
  "valid_parameters \<lparr>maxdepth = 3, width = 1, zpos = [0, 1 / 2, 1], maxslope = 1 / 4\<rparr> \<and>
   (\<exists>g st. Generate (\<lambda>bits. nat (sum_list bits)) 16
              \<lparr>maxdepth = 3, width = 1, zpos = [0, 1 / 2, 1], maxslope = 1 / 4\<rparr>
                    PatternGenerator_ctor = Inr (g, st) \<and>
      (\<forall>pat\<in>set (concat (fHashTable st)). \<forall>lnk\<in>set (fChild (store st ! pat)).
         snd lnk \<noteq> 3 \<and>
         (snd lnk AND 2 \<noteq> 0 \<longrightarrow>
            pat = 0 \<and> fBits (store st ! pat) = replicate (fNplanes g) 0)))"
proof -
  have v: "valid_parameters \<lparr>maxdepth = 3, width = 1, zpos = [0, 1 / 2, 1], maxslope = 1 / 4\<rparr>"
    by (simp add: valid_parameters_def)
  from mirror_links_only_at_root [OF v, of "\<lambda>bits. nat (sum_list bits)" 16] v
  show ?thesis by blast
qed

text \<open>
  Claim C9 (scenario S3). With three planes at z = 0, 0.5, 1 \<^verbatim>\<open>LineCheck\<close> returns false
  on the pattern with bins [0, 2, 0], and no tree that \<^verbatim>\<open>Generate\<close> builds for these
  planes on a new generator holds a pattern with these bins, whatever the depth and the
  slope limit are.
\<close>

theorem LineCheck_rejects_S3:
  "LineCheck \<lparr>fNlevels = nl, fNplanes = 3, fMaxSlope = s, fZ = [0, 1 / 2, 1]\<rparr> [0, 2, 0]
     = Inr False \<and>
   (\<forall>g st. Generate H m0 \<lparr>maxdepth = d, width = w, zpos = [0, 1 / 2, 1], maxslope = s\<rparr>
         PatternGenerator_ctor
              = Inr (g, st) \<longrightarrow>
      [0, 2, 0] \<notin> set (map (\<lambda>pat. fBits (store st ! pat)) (concat (fHashTable st))))"
proof -
  have L: "LineCheck \<lparr>fNlevels = n, fNplanes = 3, fMaxSlope = s, fZ = [0, 1 / 2, 1]\<rparr> [0, 2, 0]
             = Inr False" for n
    by (simp add: LineCheck_def Let_def numeral_3_eq_3)
  have "[0, 2, 0] \<notin> set (map (\<lambda>pat. fBits (store st ! pat)) (concat (fHashTable st)))"
    if G: "Generate H m0 \<lparr>maxdepth = d, width = w, zpos = [0, 1 / 2, 1], maxslope = s\<rparr>
          PatternGenerator_ctor
             = Inr (g, st)" for g st
  proof
    assume "[0, 2, 0] \<in> set (map (\<lambda>pat. fBits (store st ! pat)) (concat (fHashTable st)))"
    then have "[0, 2, 0] \<in> (\<lambda>pat. fBits (store st ! pat)) ` set (concat (fHashTable st))"
      by (simp only: set_map)
    then obtain pat where b': "[0, 2, 0] = fBits (store st ! pat)"
      and pat: "pat \<in> set (concat (fHashTable st))"
      by (rule imageE)
    note b = b' [symmetric]
    from Generate_build_inv [OF G] have inv: "build_inv H g st" by blast
    from Generate_build_inv [OF G]
    have g: "g = \<lparr>fNlevels = d + 1, fNplanes = 3, fMaxSlope = s, fZ = [0, 1 / 2, 1]\<rparr>"
      by (simp add: generator_of_def)
    from table_patterns_in_store [OF inv pat] have p: "pat < length (store st)" .
    from inv have s: "store_inv g st" by (simp add: build_inv_def)
    show False
    proof (cases "pat = 0")
      case True
      with s b g show False by (simp add: store_inv_def numeral_3_eq_3)
    next
      case False
      with s p b have "LineCheck g [0, 2, 0] = Inr True" by (auto simp: store_inv_def)
      with L [of "d + 1"] g show False by simp
    qed
  qed
  with L show ?thesis by blast
qed

theorem LineCheck_rejects_S3_witness:
  "LineCheck \<lparr>fNlevels = 3, fNplanes = 3, fMaxSlope = 1, fZ = [0, 1 / 2, 1]\<rparr> [0, 2, 0]
     = Inr False \<and>
   (\<exists>g st. Generate (\<lambda>bits. nat (sum_list bits)) 16
              \<lparr>maxdepth = 2, width = 1, zpos = [0, 1 / 2, 1], maxslope = 1\<rparr>
                    PatternGenerator_ctor = Inr (g, st) \<and>
      [0, 2, 0] \<notin> set (map (\<lambda>pat. fBits (store st ! pat)) (concat (fHashTable st))))"
proof -
  have "valid_parameters \<lparr>maxdepth = 2, width = 1, zpos = [0, 1 / 2, 1], maxslope = 1\<rparr>"
    by (simp add: valid_parameters_def)
  from Generate_inv [OF this, of "\<lambda>bits. nat (sum_list bits)" 16] obtain g st where
    G: "Generate (\<lambda>bits. nat (sum_list bits)) 16
          \<lparr>maxdepth = 2, width = 1, zpos = [0, 1 / 2, 1], maxslope = 1\<rparr>
                PatternGenerator_ctor = Inr (g, st)"
    by blast
  from LineCheck_rejects_S3 [of 3 1 "\<lambda>bits. nat (sum_list bits)" 16 2 1] G
  show ?thesis by blast
qed

text \<open>
  Claim C10 (termination). Every call of \<^verbatim>\<open>MakeChildNodes\<close> terminates, whatever the
  pattern, the depth and the state of the build are (a pattern that links to itself
  included): each recursive call has a larger depth, and a call with
  \<^verbatim>\<open>depth >= fNlevels\<close> makes none. For valid parameters \<^verbatim>\<open>Generate\<close>, called on a new
  generator, therefore returns, and it returns a tree: no assertion fails on the way.
\<close>

theorem MakeChildNodes_terminates:
  assumes "valid_parameters p"
  shows "MakeChildNodes_dom (H, m0, g, parent, depth, st) \<and>
         (\<exists>g' st'. Generate H m0 p PatternGenerator_ctor = Inr (g', st'))"
proof -
  have "MakeChildNodes_dom (H, m0, g, parent, depth, st)"
    using MakeChildNodes_total by blast
  moreover from Generate_inv [OF assms, of H m0]
  have "\<exists>g' st'. Generate H m0 p PatternGenerator_ctor = Inr (g', st')" by blast
  ultimately show ?thesis ..
qed

theorem MakeChildNodes_terminates_witness:
  "valid_parameters \<lparr>maxdepth = 1, width = 1, zpos = [0, 1], maxslope = 1\<rparr> \<and>
   MakeChildNodes_dom (\<lambda>bits. nat (sum_list bits), 16,
      \<lparr>fNlevels = 2, fNplanes = 2, fMaxSlope = 1, fZ = [0, 1]\<rparr>, 0, 1,
      \<lparr>fHashTable = [[0], []], store = [\<lparr>fBits = [0, 0], fChild = [], fMinDepth = 16\<rparr>]\<rparr>) \<and>
   (\<exists>g' st'. Generate (\<lambda>bits. nat (sum_list bits)) 16
                \<lparr>maxdepth = 1, width = 1, zpos = [0, 1], maxslope = 1\<rparr>
                      PatternGenerator_ctor = Inr (g', st'))"
proof -
  have v: "valid_parameters \<lparr>maxdepth = 1, width = 1, zpos = [0, 1], maxslope = 1\<rparr>"
    by (simp add: valid_parameters_def)
  from MakeChildNodes_terminates [OF v] v show ?thesis by blast
qed

end
